theory Spec2Isabelle
  imports Main "HOL-Library.Word"
begin

unbundle bit_operations_syntax

section \<open>Bytes, characters and strings\<close>

text \<open>The reader delivers bytes. A JavaScript string is a sequence of 16-bit code units,
  and a character, for the scanner, is one code unit: \<open>buffer[bufPos]\<close>. \<open>cu\<close> and \<open>js\<close>
  write the code units of ASCII characters and literals.\<close>

type_synonym byte = "8 word"
type_synonym jschar = "16 word"
type_synonym jsstring = "jschar list"

definition cu :: "char \<Rightarrow> jschar" where
  "cu c = of_char c"

definition js :: "string \<Rightarrow> jsstring" where
  "js cs = map cu cs"

section \<open>Token categories and the category mask\<close>

text \<open>The enum \<open>Token\<close> of scanner.ts; \<open>tokenNum\<close> gives the numeric value of each member
  (\<open>eof = -1\<close>, the others counting up from 0) and \<open>tokenName\<close> the reverse mapping
  \<open>Token[t]\<close>.\<close>

datatype Token = T_eof | T_token | T_whitespace | T_identifier | T_keyword
  | T_int | T_float | T_string | T_comment

fun tokenNum :: "Token \<Rightarrow> int" where
  "tokenNum T_eof = -1"
| "tokenNum T_token = 0"
| "tokenNum T_whitespace = 1"
| "tokenNum T_identifier = 2"
| "tokenNum T_keyword = 3"
| "tokenNum T_int = 4"
| "tokenNum T_float = 5"
| "tokenNum T_string = 6"
| "tokenNum T_comment = 7"

fun tokenName :: "Token \<Rightarrow> jsstring" where
  "tokenName T_eof = js ''eof''"
| "tokenName T_token = js ''token''"
| "tokenName T_whitespace = js ''whitespace''"
| "tokenName T_identifier = js ''identifier''"
| "tokenName T_keyword = js ''keyword''"
| "tokenName T_int = js ''int''"
| "tokenName T_float = js ''float''"
| "tokenName T_string = js ''string''"
| "tokenName T_comment = js ''comment''"

text \<open>JavaScript's \<open>1 << n\<close> on 32-bit integers: the shift count is taken modulo 32, so
  \<open>1 << -1\<close> is bit 31.\<close>

definition shl1 :: "int \<Rightarrow> 32 word" where
  "shl1 n = push_bit (nat (n mod 32)) 1"

definition scanWhitespace :: "32 word" where "scanWhitespace = shl1 (- tokenNum T_whitespace)"
definition scanIdents :: "32 word" where "scanIdents = shl1 (- tokenNum T_identifier)"
definition scanInts :: "32 word" where "scanInts = shl1 (- tokenNum T_int)"
definition scanFloats :: "32 word" where "scanFloats = shl1 (- tokenNum T_float)"
definition scanStrings :: "32 word" where "scanStrings = shl1 (- tokenNum T_string)"
definition scanComments :: "32 word" where "scanComments = shl1 (- tokenNum T_comment)"
definition defaultTokens :: "32 word" where
  "defaultTokens = scanIdents OR scanFloats OR scanStrings"


section \<open>The platform's text decoder and the string reader\<close>

text \<open>\<open>new TextDecoder("utf-8")\<close>, the decoder the constructor takes by default, and its
  method \<open>decode(bytes)\<close> as the Encoding Standard defines them. The decoder is not fatal
  and does not ignore the byte order mark, and \<open>decode\<close> is called without the option
  \<open>stream\<close>: so every call decodes its bytes on their own, starting afresh.

  \<open>utf8Decoder\<close> is the standard's UTF-8 decoder run over the bytes of one call. Its state
  is the number of bytes needed and seen for the sequence in progress, the code point
  collected so far, and the bounds for the next byte. An ill-formed sequence gives
  U+FFFD, and the byte that broke it is looked at again; so does a sequence that the end
  of the bytes cuts short.\<close>

function utf8Decoder ::
  "nat \<Rightarrow> nat \<Rightarrow> 32 word \<Rightarrow> byte \<Rightarrow> byte \<Rightarrow> byte list \<Rightarrow> 32 word list" where
  "utf8Decoder needed seen cp lower upper [] = (if needed \<noteq> 0 then [0xFFFD] else [])"
| "utf8Decoder needed seen cp lower upper (b # bs) =
     (if needed = 0 then
        (if b \<le> 0x7F then ucast b # utf8Decoder 0 0 0 0x80 0xBF bs
         else if 0xC2 \<le> b \<and> b \<le> 0xDF then utf8Decoder 1 0 (ucast b AND 0x1F) 0x80 0xBF bs
         else if 0xE0 \<le> b \<and> b \<le> 0xEF then
           utf8Decoder 2 0 (ucast b AND 0xF) (if b = 0xE0 then 0xA0 else 0x80)
             (if b = 0xED then 0x9F else 0xBF) bs
         else if 0xF0 \<le> b \<and> b \<le> 0xF4 then
           utf8Decoder 3 0 (ucast b AND 0x7) (if b = 0xF0 then 0x90 else 0x80)
             (if b = 0xF4 then 0x8F else 0xBF) bs
         else 0xFFFD # utf8Decoder 0 0 0 0x80 0xBF bs)
      else if \<not> (lower \<le> b \<and> b \<le> upper) then 0xFFFD # utf8Decoder 0 0 0 0x80 0xBF (b # bs)
      else (let cp' = push_bit 6 cp OR (ucast b AND 0x3F) in
            if seen + 1 \<noteq> needed then utf8Decoder needed (seen + 1) cp' 0x80 0xBF bs
            else cp' # utf8Decoder 0 0 0 0x80 0xBF bs))"
  by pat_completeness auto
termination
  by (relation "measure (\<lambda>(needed, seen, cp, lower, upper, bs).
                  2 * length bs + (if needed = 0 then 0 else 1))") auto

text \<open>A byte order mark at the front of the decoded code points is dropped; the code
  points are then written as UTF-16 code units, a surrogate pair for those above
  U+FFFF.\<close>

definition dropBOM :: "32 word list \<Rightarrow> 32 word list" where
  "dropBOM cps = (case cps of [] \<Rightarrow> [] | c # rest \<Rightarrow> if c = 0xFEFF then rest else cps)"

definition toUtf16 :: "32 word \<Rightarrow> jsstring" where
  "toUtf16 cp =
     (if cp < 0x10000 then [ucast cp]
      else [ucast (0xD800 + drop_bit 10 (cp - 0x10000)),
            ucast (0xDC00 + ((cp - 0x10000) AND 0x3FF))])"

definition utf8Decode :: "byte list \<Rightarrow> jsstring" where
  "utf8Decode bs = concat (map toUtf16 (dropBOM (utf8Decoder 0 0 0 0x80 0xBF bs)))"

text \<open>\<open>new StringReader(s)\<close>, which the tests read from: a reader over the UTF-8 bytes of
  the string, as \<open>TextEncoder\<close> writes them. The string is read as scalar values first, a
  surrogate pair as one, a lone surrogate as U+FFFD.\<close>

fun scalarValues :: "jsstring \<Rightarrow> 32 word list" where
  "scalarValues [] = []"
| "scalarValues [u] = [if 0xD800 \<le> u \<and> u \<le> 0xDFFF then 0xFFFD else ucast u]"
| "scalarValues (u # v # us) =
     (if 0xD800 \<le> u \<and> u \<le> 0xDBFF \<and> 0xDC00 \<le> v \<and> v \<le> 0xDFFF
      then (0x10000 + push_bit 10 (ucast u - 0xD800) + (ucast v - 0xDC00)) # scalarValues us
      else (if 0xD800 \<le> u \<and> u \<le> 0xDFFF then 0xFFFD else ucast u) # scalarValues (v # us))"

definition utf8Bytes :: "32 word \<Rightarrow> byte list" where
  "utf8Bytes cp =
     (if cp < 0x80 then [ucast cp]
      else if cp < 0x800 then [0xC0 OR ucast (drop_bit 6 cp), 0x80 OR (ucast cp AND 0x3F)]
      else if cp < 0x10000 then
        [0xE0 OR ucast (drop_bit 12 cp), 0x80 OR (ucast (drop_bit 6 cp) AND 0x3F),
         0x80 OR (ucast cp AND 0x3F)]
      else
        [0xF0 OR ucast (drop_bit 18 cp), 0x80 OR (ucast (drop_bit 12 cp) AND 0x3F),
         0x80 OR (ucast (drop_bit 6 cp) AND 0x3F), 0x80 OR (ucast cp AND 0x3F)])"

definition StringReader :: "jsstring \<Rightarrow> byte list" where
  "StringReader str = concat (map utf8Bytes (scalarValues str))"

text \<open>On a string of ASCII characters the two are inverse to each other, byte for
  character.\<close>

definition isAscii :: "jsstring \<Rightarrow> bool" where
  "isAscii str = list_all (\<lambda>u. u < 0x80) str"

lemmas to_unat = word_unat_eq_iff word_less_nat_alt word_le_nat_alt unsigned_ucast_eq
  unsigned_take_bit_eq take_bit_nat_eq_self

lemma unat_byte: "unat (b :: byte) < 256"
  using unsigned_less [of b, where 'a = nat] by simp

lemma ascii_utf8Bytes: "(u :: jschar) < 0x80 \<Longrightarrow> utf8Bytes (ucast u) = [ucast u]"
  by (simp add: utf8Bytes_def to_unat)

lemma ascii_byte: "(u :: jschar) < 0x80 \<Longrightarrow> (ucast u :: byte) \<le> 0x7F"
  by (simp add: to_unat)

lemma ascii_back: "(u :: jschar) < 0x80 \<Longrightarrow> (ucast (ucast u :: byte) :: jschar) = u"
  by (simp add: to_unat)

lemma byte_toUtf16: "toUtf16 (ucast (b :: byte)) = [ucast b]"
  using unat_byte [of b] by (simp add: toUtf16_def to_unat)

lemma byte_not_BOM: "(ucast (b :: byte) :: 32 word) \<noteq> 0xFEFF"
  using unat_byte [of b] by (auto simp add: to_unat)

lemma scalarValues_ascii: "isAscii str \<Longrightarrow> scalarValues str = map ucast str"
  by (induction str rule: scalarValues.induct) (auto simp: isAscii_def to_unat)

lemma StringReader_ascii: "isAscii str \<Longrightarrow> StringReader str = map ucast str"
  by (induction str)
     (simp_all add: StringReader_def scalarValues_ascii ascii_utf8Bytes isAscii_def)

lemma utf8Decoder_ascii:
  "list_all (\<lambda>b. b \<le> 0x7F) bs \<Longrightarrow> utf8Decoder 0 0 0 0x80 0xBF bs = map ucast bs"
  by (induction bs) simp_all

lemma dropBOM_bytes: "dropBOM (map ucast (bs :: byte list)) = map ucast bs"
  by (cases bs) (simp_all add: dropBOM_def byte_not_BOM)

lemma utf8Decode_ascii:
  "list_all (\<lambda>b. b \<le> 0x7F) bs \<Longrightarrow> utf8Decode bs = map ucast bs"
  by (simp add: utf8Decode_def utf8Decoder_ascii dropBOM_bytes byte_toUtf16 comp_def)

section \<open>Default classification predicates\<close>

text \<open>The module-level predicates of scanner.ts. A character is one code unit of the decoded
  text; the comparisons \<open>ch >= "A" && ch <= "Z"\<close> are comparisons of character codes.\<close>

definition default_isWhitespace :: "jschar \<Rightarrow> bool" where
  "default_isWhitespace ch \<longleftrightarrow>
     ch = cu CHR '' '' \<or> ch = cu CHR 0x09 \<or> ch = cu CHR 0x0A \<or> ch = cu CHR 0x0D"

definition default_isIdent :: "jschar \<Rightarrow> nat \<Rightarrow> bool" where
  "default_isIdent ch i \<longleftrightarrow>
     (cu CHR ''A'' \<le> ch \<and> ch \<le> cu CHR ''Z'') \<or> (cu CHR ''a'' \<le> ch \<and> ch \<le> cu CHR ''z'') \<or>
     (i > 0 \<and> (ch = cu CHR ''_'' \<or> (cu CHR ''0'' \<le> ch \<and> ch \<le> cu CHR ''9'')))"

definition default_isStringDelimiter :: "jschar \<Rightarrow> bool" where
  "default_isStringDelimiter ch \<longleftrightarrow> ch = cu CHR 0x22 \<or> ch = cu CHR 0x27 \<or> ch = cu CHR 0x60"

definition default_isDecimal :: "jschar \<Rightarrow> bool" where
  "default_isDecimal ch \<longleftrightarrow> cu CHR ''0'' \<le> ch \<and> ch \<le> cu CHR ''9''"

definition default_isSign :: "jschar \<Rightarrow> bool" where
  "default_isSign ch \<longleftrightarrow> ch = cu CHR ''+'' \<or> ch = cu CHR ''-''"

definition default_isHex :: "jschar \<Rightarrow> nat \<Rightarrow> bool" where
  "default_isHex ch i \<longleftrightarrow>
     (if i = 0 then ch = cu CHR ''0''
      else if i = 1 then (ch = cu CHR ''x'' \<or> ch = cu CHR ''X'')
      else ((cu CHR ''0'' \<le> ch \<and> ch \<le> cu CHR ''9'') \<or> (cu CHR ''A'' \<le> ch \<and> ch \<le> cu CHR ''F'') \<or>
            (cu CHR ''a'' \<le> ch \<and> ch \<le> cu CHR ''f'')))"

definition default_isOctal :: "jschar \<Rightarrow> nat \<Rightarrow> bool" where
  "default_isOctal ch i \<longleftrightarrow>
     (if i = 0 then ch = cu CHR ''0''
      else if i = 1 then (ch = cu CHR ''o'' \<or> ch = cu CHR ''O'')
      else (cu CHR ''0'' \<le> ch \<and> ch \<le> cu CHR ''8''))"

definition default_isBinary :: "jschar \<Rightarrow> nat \<Rightarrow> bool" where
  "default_isBinary ch i \<longleftrightarrow>
     (if i = 0 then ch = cu CHR ''0''
      else if i = 1 then (ch = cu CHR ''b'' \<or> ch = cu CHR ''B'')
      else (ch = cu CHR ''0'' \<or> ch = cu CHR ''1''))"

definition default_isENotation :: "jschar \<Rightarrow> bool" where
  "default_isENotation ch \<longleftrightarrow> ch = cu CHR ''E'' \<or> ch = cu CHR ''e''"

definition default_isComment :: "jschar \<Rightarrow> nat \<Rightarrow> bool" where
  "default_isComment ch i \<longleftrightarrow> (if i = 0 \<or> i = 1 then ch = cu CHR ''/'' else ch \<noteq> cu CHR 0x0A)"

definition default_isBlockCommentOpen :: "jschar \<Rightarrow> nat \<Rightarrow> bool" where
  "default_isBlockCommentOpen ch i \<longleftrightarrow>
     (if i = 0 then ch = cu CHR ''/'' else if i = 1 then ch = cu CHR ''*'' else False)"

definition default_isBlockCommentClose :: "jschar \<Rightarrow> nat \<Rightarrow> bool" where
  "default_isBlockCommentClose ch i \<longleftrightarrow>
     (if i = 0 then ch = cu CHR ''*'' else if i = 1 then ch = cu CHR ''/'' else False)"

text \<open>\<open>isKeyword\<close> compares the token text with \<open>null\<close>, which no string equals.\<close>

definition default_isKeyword :: "jsstring \<Rightarrow> bool" where
  "default_isKeyword token \<longleftrightarrow> False"


section \<open>Scanner configuration and state\<close>

text \<open>The read-only fields of class \<open>Scanner\<close>. \<open>chunkBuffer\<close> is the length of the
  \<open>Uint8Array\<close> handed to every read, \<open>decoder\<close> the \<open>decode\<close> method of the text decoder.
  \<open>mode\<close> is the mask as the tests \<open>this.mode & ...\<close> see it: the number the constructor
  stored, taken to 32 bits.\<close>

record Config =
  chunkBuffer :: nat
  decoder :: "byte list \<Rightarrow> jsstring"
  isWhitespace :: "jschar \<Rightarrow> bool"
  isIdent :: "jschar \<Rightarrow> nat \<Rightarrow> bool"
  isKeyword :: "jsstring \<Rightarrow> bool"
  isStringDelimiter :: "jschar \<Rightarrow> bool"
  isDecimal :: "jschar \<Rightarrow> bool"
  isSign :: "jschar \<Rightarrow> bool"
  isHex :: "jschar \<Rightarrow> nat \<Rightarrow> bool"
  isOctal :: "jschar \<Rightarrow> nat \<Rightarrow> bool"
  isBinary :: "jschar \<Rightarrow> nat \<Rightarrow> bool"
  isENotation :: "jschar \<Rightarrow> bool"
  isComment :: "jschar \<Rightarrow> nat \<Rightarrow> bool"
  isBlockCommentOpen :: "jschar \<Rightarrow> nat \<Rightarrow> bool"
  isBlockCommentClose :: "jschar \<Rightarrow> nat \<Rightarrow> bool"
  mode :: "32 word"

text \<open>The mutable fields. \<open>reader\<close> holds the bytes the underlying \<open>Deno.Reader\<close> has not
  delivered yet; \<open>endPos\<close> is the getter over \<open>#line\<close> and \<open>#column\<close>.\<close>

record Scanner =
  reader :: "byte list"
  buffer :: jsstring
  bufPos :: nat
  line :: int
  column :: int
  contents :: jsstring
  currentToken :: "Token option"
  startPos :: "int \<times> int"

definition endPos :: "Scanner \<Rightarrow> int \<times> int" where
  "endPos s = (line s, column s)"

text \<open>The options object \<open>ScannerInit\<close>; \<open>None\<close> is an absent option. \<open>mode\<close> is a
  JavaScript number, here a whole one. The option \<open>read\<close> is left at its default,
  \<open>defaultRead\<close> below.\<close>

record ScannerInit =
  init_minRead :: "nat option"
  init_chunkBuffer :: "nat option"
  init_decoder :: "(byte list \<Rightarrow> jsstring) option"
  init_isWhitespace :: "(jschar \<Rightarrow> bool) option"
  init_isIdent :: "(jschar \<Rightarrow> nat \<Rightarrow> bool) option"
  init_isKeyword :: "(jsstring \<Rightarrow> bool) option"
  init_isStringDelimiter :: "(jschar \<Rightarrow> bool) option"
  init_isDecimal :: "(jschar \<Rightarrow> bool) option"
  init_isSign :: "(jschar \<Rightarrow> bool) option"
  init_isHex :: "(jschar \<Rightarrow> nat \<Rightarrow> bool) option"
  init_isOctal :: "(jschar \<Rightarrow> nat \<Rightarrow> bool) option"
  init_isBinary :: "(jschar \<Rightarrow> nat \<Rightarrow> bool) option"
  init_isENotation :: "(jschar \<Rightarrow> bool) option"
  init_isComment :: "(jschar \<Rightarrow> nat \<Rightarrow> bool) option"
  init_isBlockCommentOpen :: "(jschar \<Rightarrow> nat \<Rightarrow> bool) option"
  init_isBlockCommentClose :: "(jschar \<Rightarrow> nat \<Rightarrow> bool) option"
  init_mode :: "int option"

definition noInit :: ScannerInit where
  "noInit = \<lparr> init_minRead = None, init_chunkBuffer = None, init_decoder = None,
     init_isWhitespace = None,
     init_isIdent = None, init_isKeyword = None, init_isStringDelimiter = None,
     init_isDecimal = None, init_isSign = None, init_isHex = None, init_isOctal = None,
     init_isBinary = None, init_isENotation = None, init_isComment = None,
     init_isBlockCommentOpen = None, init_isBlockCommentClose = None, init_mode = None \<rparr>"

text \<open>\<open>a || b\<close> on an optional number: an absent or zero \<open>a\<close> gives \<open>b\<close>. On an optional
  object, \<open>orElse\<close>: only an absent \<open>a\<close> gives \<open>b\<close>.\<close>

definition orNat :: "nat option \<Rightarrow> nat \<Rightarrow> nat" where
  "orNat a b = (case a of None \<Rightarrow> b | Some n \<Rightarrow> if n = 0 then b else n)"

definition orInt :: "int option \<Rightarrow> int \<Rightarrow> int" where
  "orInt a b = (case a of None \<Rightarrow> b | Some n \<Rightarrow> if n = 0 then b else n)"

definition orElse :: "'a option \<Rightarrow> 'a \<Rightarrow> 'a" where
  "orElse a b = (case a of None \<Rightarrow> b | Some f \<Rightarrow> f)"

text \<open>The constructor: the configuration it fixes and the initial state. The mask
  constants are JavaScript numbers, the signed readings of their 32 bits; \<open>maskNumber\<close>
  gives the number of a mask.\<close>

definition maskNumber :: "32 word \<Rightarrow> int" where
  "maskNumber m = sint m"

definition newConfig :: "ScannerInit \<Rightarrow> Config" where
  "newConfig init = \<lparr>
     chunkBuffer = (case init_chunkBuffer init of Some n \<Rightarrow> n
                    | None \<Rightarrow> orNat (init_minRead init) 512),
     decoder = orElse (init_decoder init) utf8Decode,
     isWhitespace = orElse (init_isWhitespace init) default_isWhitespace,
     isIdent = orElse (init_isIdent init) default_isIdent,
     isKeyword = orElse (init_isKeyword init) default_isKeyword,
     isStringDelimiter = orElse (init_isStringDelimiter init) default_isStringDelimiter,
     isDecimal = orElse (init_isDecimal init) default_isDecimal,
     isSign = orElse (init_isSign init) default_isSign,
     isHex = orElse (init_isHex init) default_isHex,
     isOctal = orElse (init_isOctal init) default_isOctal,
     isBinary = orElse (init_isBinary init) default_isBinary,
     isENotation = orElse (init_isENotation init) default_isENotation,
     isComment = orElse (init_isComment init) default_isComment,
     isBlockCommentOpen = orElse (init_isBlockCommentOpen init) default_isBlockCommentOpen,
     isBlockCommentClose = orElse (init_isBlockCommentClose init) default_isBlockCommentClose,
     mode = word_of_int (orInt (init_mode init) (maskNumber defaultTokens)) \<rparr>"

definition newScanner :: "byte list \<Rightarrow> Scanner" where
  "newScanner src = \<lparr> reader = src, buffer = [], bufPos = 0, line = 1, column = 0,
     contents = [], currentToken = None, startPos = (0, 0) \<rparr>"

section \<open>The chunked input cursor\<close>

definition MIN_READ :: nat where "MIN_READ = 2"

text \<open>\<open>reader.read(buffer)\<close> for a reader over bytes, with a buffer of \<open>n\<close> bytes: it hands
  out the next \<open>n\<close> bytes, fewer at the end, and \<open>null\<close> once nothing is left. The result is
  the part of the buffer that was filled, \<open>buffer.slice(0, chunkLength)\<close>.\<close>

definition readerRead :: "byte list \<Rightarrow> nat \<Rightarrow> byte list option \<times> byte list" where
  "readerRead r n = (if r = [] then (None, r) else (Some (take n r), drop n r))"

text \<open>\<open>defaultRead\<close>: a read of no bytes is taken as the end of the input; otherwise the
  bytes read are decoded, on their own.\<close>

definition defaultRead ::
  "byte list \<Rightarrow> nat \<Rightarrow> (byte list \<Rightarrow> jsstring) \<Rightarrow> jsstring option \<times> byte list" where
  "defaultRead r n dec =
     (case readerRead r n of
        (None, r') \<Rightarrow> (None, r')
      | (Some chunk, r') \<Rightarrow> if length chunk = 0 then (None, r') else (Some (dec chunk), r'))"

lemma defaultRead_shrinks:
  "defaultRead r n dec = (Some chunk, r') \<Longrightarrow> length r' < length r"
  by (auto simp: defaultRead_def readerRead_def split: if_splits)

lemma defaultRead_None:
  "defaultRead r n dec = (None, r') \<Longrightarrow> defaultRead r' n dec = (None, r')"
  by (auto simp: defaultRead_def readerRead_def min_def split: if_splits)

text \<open>The refill loop of \<open>peek\<close>: \<open>while (buffer.length < MIN_READ) ...\<close>.\<close>

function fill :: "Config \<Rightarrow> Scanner \<Rightarrow> Scanner" where
  "fill cfg s =
     (if length (buffer s) < MIN_READ then
        (case defaultRead (reader s) (chunkBuffer cfg) (decoder cfg) of
           (None, r') \<Rightarrow> s\<lparr>reader := r'\<rparr>
         | (Some chunk, r') \<Rightarrow> fill cfg (s\<lparr>reader := r', buffer := buffer s @ chunk\<rparr>))
      else s)"
  by pat_completeness auto
termination
  by (relation "measure (\<lambda>(cfg, s). length (reader s))")
     (auto dest: defaultRead_shrinks [OF sym])

declare fill.simps [simp del]

definition peek :: "Config \<Rightarrow> Scanner \<Rightarrow> jschar option \<times> Scanner" where
  "peek cfg s =
     (let s' = (if bufPos s \<ge> length (buffer s)
                then fill cfg (s\<lparr>bufPos := 0, buffer := []\<rparr>) else s)
      in (if bufPos s' < length (buffer s') then Some (buffer s' ! bufPos s') else None, s'))"

definition "next" :: "Config \<Rightarrow> Scanner \<Rightarrow> jschar option \<times> Scanner" where
  "next cfg s =
     (case peek cfg s of (ch, s1) \<Rightarrow>
        (ch, if ch = Some (cu CHR 0x0A)
             then s1\<lparr>bufPos := bufPos s1 + 1, line := line s1 + 1, column := 0\<rparr>
             else s1\<lparr>bufPos := bufPos s1 + 1, column := column s1 + 1\<rparr>))"


subsection \<open>The text still to be consumed\<close>

text \<open>\<open>pending\<close>: the text that the reads still to come will deliver, chunk after chunk,
  until a read reports the end of the input. \<open>remaining\<close>: what lies ahead of the cursor,
  the unread part of the working buffer followed by that text.\<close>

function pending :: "Config \<Rightarrow> byte list \<Rightarrow> jsstring" where
  "pending cfg r =
     (case defaultRead r (chunkBuffer cfg) (decoder cfg) of
        (None, r') \<Rightarrow> []
      | (Some chunk, r') \<Rightarrow> chunk @ pending cfg r')"
  by pat_completeness auto
termination
  by (relation "measure (\<lambda>(cfg, r). length r)")
     (auto dest: defaultRead_shrinks [OF sym])

declare pending.simps [simp del]

definition remaining :: "Config \<Rightarrow> Scanner \<Rightarrow> jsstring" where
  "remaining cfg s = drop (bufPos s) (buffer s) @ pending cfg (reader s)"

lemma pending_None:
  assumes "defaultRead r (chunkBuffer cfg) (decoder cfg) = (None, r')"
  shows "pending cfg r = []" "pending cfg r' = []"
proof -
  show "pending cfg r = []" using assms by (subst pending.simps) simp
  from defaultRead_None [OF assms] show "pending cfg r' = []"
    by (subst pending.simps) simp
qed

lemma pending_Some:
  "defaultRead r (chunkBuffer cfg) (decoder cfg) = (Some chunk, r') \<Longrightarrow>
   pending cfg r = chunk @ pending cfg r'"
  by (subst pending.simps) simp

lemma pending_mode [simp]: "pending (cfg\<lparr>mode := m\<rparr>) r = pending cfg r"
proof (induction cfg r rule: pending.induct)
  case (1 cfg r)
  show ?case
  proof (cases "defaultRead r (chunkBuffer cfg) (decoder cfg)")
    case (Pair a r')
    show ?thesis
    proof (cases a)
      case None
      with Pair show ?thesis by (subst (1 2) pending.simps) simp
    next
      case (Some chunk)
      with Pair 1 [OF Pair [symmetric] Some] show ?thesis
        by (subst (1 2) pending.simps) simp
    qed
  qed
qed

lemma fill_text:
  "buffer (fill cfg s) @ pending cfg (reader (fill cfg s)) = buffer s @ pending cfg (reader s)"
proof (induction cfg s rule: fill.induct)
  case (1 cfg s)
  show ?case
  proof (cases "length (buffer s) < MIN_READ")
    case False
    then show ?thesis by (simp add: fill.simps)
  next
    case True
    show ?thesis
    proof (cases "defaultRead (reader s) (chunkBuffer cfg) (decoder cfg)")
      case (Pair a r')
      show ?thesis
      proof (cases a)
        case None
        with Pair True have "fill cfg s = s\<lparr>reader := r'\<rparr>"
          by (subst fill.simps) simp
        with pending_None [OF Pair [unfolded None]] show ?thesis by simp
      next
        case (Some chunk)
        with Pair True 1
        have "buffer (fill cfg s) @ pending cfg (reader (fill cfg s))
                = (buffer s @ chunk) @ pending cfg r'"
          by (subst (1 2) fill.simps) simp
        with pending_Some [OF Pair [unfolded Some]] show ?thesis by simp
      qed
    qed
  qed
qed

lemma fill_fields [simp]:
  "bufPos (fill cfg s) = bufPos s" "line (fill cfg s) = line s"
  "column (fill cfg s) = column s" "contents (fill cfg s) = contents s"
  "currentToken (fill cfg s) = currentToken s" "startPos (fill cfg s) = startPos s"
  by (induction cfg s rule: fill.induct; subst fill.simps;
      simp split: prod.splits option.splits)+

lemma remaining_upd [simp]:
  "remaining cfg (s\<lparr>contents := x\<rparr>) = remaining cfg s"
  "remaining cfg (s\<lparr>currentToken := t\<rparr>) = remaining cfg s"
  "remaining cfg (s\<lparr>startPos := p\<rparr>) = remaining cfg s"
  "remaining cfg (s\<lparr>line := l\<rparr>) = remaining cfg s"
  "remaining cfg (s\<lparr>column := c\<rparr>) = remaining cfg s"
  by (simp_all add: remaining_def)

lemma remaining_mode [simp]: "remaining (cfg\<lparr>mode := m\<rparr>) s = remaining cfg s"
  by (simp add: remaining_def)

lemma peek_fields [simp]:
  "line (snd (peek cfg s)) = line s" "column (snd (peek cfg s)) = column s"
  "contents (snd (peek cfg s)) = contents s"
  "currentToken (snd (peek cfg s)) = currentToken s"
  "startPos (snd (peek cfg s)) = startPos s"
  by (simp_all add: peek_def Let_def)

lemma peek_remaining [simp]: "remaining cfg (snd (peek cfg s)) = remaining cfg s"
proof (cases "bufPos s \<ge> length (buffer s)")
  case True
  have "buffer (fill cfg (s\<lparr>bufPos := 0, buffer := []\<rparr>)) @
        pending cfg (reader (fill cfg (s\<lparr>bufPos := 0, buffer := []\<rparr>))) = pending cfg (reader s)"
    by (simp add: fill_text)
  with True show ?thesis by (simp add: peek_def Let_def remaining_def)
next
  case False
  then show ?thesis by (simp add: peek_def Let_def)
qed

text \<open>A character that \<open>peek\<close> returns is the first of the remaining text, and it sits in
  the buffer at the read position.\<close>

lemma peek_Some:
  assumes "peek cfg s = (Some c, s1)"
  shows "remaining cfg s = c # drop (Suc (bufPos s1)) (buffer s1) @ pending cfg (reader s1)"
proof -
  from assms have s1: "s1 = snd (peek cfg s)" by simp
  from assms have lt: "bufPos s1 < length (buffer s1)" and c: "c = buffer s1 ! bufPos s1"
    by (auto simp: peek_def Let_def split: if_splits)
  have "remaining cfg s = remaining cfg s1" by (simp add: s1)
  also have "\<dots> = c # drop (Suc (bufPos s1)) (buffer s1) @ pending cfg (reader s1)"
    using lt c by (simp add: remaining_def Cons_nth_drop_Suc)
  finally show ?thesis .
qed

lemma next_Some:
  assumes "next cfg s = (Some c, s1)"
  shows "remaining cfg s = c # remaining cfg s1"
proof -
  obtain s0 where p: "peek cfg s = (Some c, s0)"
    using assms by (auto simp: next_def split: prod.splits)
  from assms p have "drop (bufPos s1) (buffer s1) @ pending cfg (reader s1)
      = drop (Suc (bufPos s0)) (buffer s0) @ pending cfg (reader s0)"
    by (auto simp: next_def split: if_splits)
  with peek_Some [OF p] show ?thesis by (simp add: remaining_def)
qed

lemma next_remaining_le:
  "length (remaining cfg (snd (next cfg s))) \<le> length (remaining cfg s)"
proof -
  obtain ch s0 where p: "peek cfg s = (ch, s0)" by (cases "peek cfg s")
  then have s0: "s0 = snd (peek cfg s)" by simp
  have "remaining cfg (snd (next cfg s))
          = drop (Suc (bufPos s0)) (buffer s0) @ pending cfg (reader s0)"
    using p by (simp add: next_def remaining_def)
  then have "length (remaining cfg (snd (next cfg s))) \<le> length (remaining cfg s0)"
    by (simp add: remaining_def)
  then show ?thesis by (simp add: s0)
qed

lemma fill_exhausted:
  "length (buffer (fill cfg s)) < MIN_READ \<Longrightarrow>
   defaultRead (reader (fill cfg s)) (chunkBuffer cfg) (decoder cfg)
     = (None, reader (fill cfg s))"
proof (induction cfg s rule: fill.induct)
  case (1 cfg s)
  show ?case
  proof (cases "length (buffer s) < MIN_READ")
    case False
    with 1(2) show ?thesis by (simp add: fill.simps)
  next
    case True
    show ?thesis
    proof (cases "defaultRead (reader s) (chunkBuffer cfg) (decoder cfg)")
      case (Pair a r')
      show ?thesis
      proof (cases a)
        case None
        with Pair True have f: "fill cfg s = s\<lparr>reader := r'\<rparr>"
          by (subst fill.simps) simp
        from defaultRead_None [OF Pair [unfolded None]] f show ?thesis by simp
      next
        case (Some chunk)
        with Pair True
        have f: "fill cfg s = fill cfg (s\<lparr>reader := r', buffer := buffer s @ chunk\<rparr>)"
          by (subst fill.simps) simp
        from 1(1) [OF True Pair [symmetric] Some] 1(2) f show ?thesis by simp
      qed
    qed
  qed
qed

lemma fill_no_progress:
  "buffer (fill cfg s) = [] \<Longrightarrow> buffer s = [] \<Longrightarrow>
   fill cfg (fill cfg s) = fill cfg s"
  using fill_exhausted [of cfg s]
  by (subst fill.simps) (simp add: MIN_READ_def)

lemma peek_peek: "peek cfg (snd (peek cfg s)) = peek cfg s"
proof (cases "bufPos s \<ge> length (buffer s)")
  case False
  then show ?thesis by (simp add: peek_def Let_def)
next
  case True
  define s' where "s' = fill cfg (s\<lparr>bufPos := 0, buffer := []\<rparr>)"
  have p: "peek cfg s = (if 0 < length (buffer s') then Some (buffer s' ! 0) else None, s')"
    using True by (simp add: peek_def Let_def s'_def)
  show ?thesis
  proof (cases "buffer s' = []")
    case False
    then show ?thesis using p by (simp add: peek_def Let_def s'_def)
  next
    case True
    have "s'\<lparr>bufPos := 0, buffer := []\<rparr> = s'"
      using True by (simp add: s'_def)
    moreover have "fill cfg s' = s'"
      unfolding s'_def using True fill_no_progress [of cfg "s\<lparr>bufPos := 0, buffer := []\<rparr>"] 
      by (simp add: s'_def)
    ultimately show ?thesis using p True by (simp add: peek_def Let_def)
  qed
qed

lemma next_after_peek: "next cfg (snd (peek cfg s)) = next cfg s"
  by (simp add: next_def peek_peek)

section \<open>The token classifier\<close>

text \<open>The two errors \<open>scan\<close> throws, told apart by their messages.\<close>

datatype ScanError = LiteralNotTerminated | CommentNotTerminated

fun errorMessage :: "ScanError \<Rightarrow> jsstring" where
  "errorMessage LiteralNotTerminated = js ''literal not terminated''"
| "errorMessage CommentNotTerminated = js ''comment not terminated''"

text \<open>\<open>this.contents += await this.next()\<close>. String concatenation with \<open>null\<close> appends
  the text \<open>null\<close>.\<close>

definition appendNext :: "Config \<Rightarrow> Scanner \<Rightarrow> Scanner" where
  "appendNext cfg s =
     (case next cfg s of (ch, s') \<Rightarrow>
        s'\<lparr>contents := contents s @ (case ch of None \<Rightarrow> js ''null'' | Some c \<Rightarrow> [c])\<rparr>)"

lemma appendNext_le: "length (remaining cfg (appendNext cfg s)) \<le> length (remaining cfg s)"
  using next_remaining_le [of cfg s]
  by (cases "next cfg s") (simp add: appendNext_def)

lemma appendNext_peeked:
  assumes "peek cfg s = (Some c, s1)"
  shows "remaining cfg s = c # remaining cfg (appendNext cfg s1)"
proof -
  from assms have s1: "s1 = snd (peek cfg s)" by simp
  obtain ch s2 where n: "next cfg s = (ch, s2)" by (cases "next cfg s")
  with assms have ch: "ch = Some c" by (auto simp: next_def)
  have "next cfg s1 = (Some c, s2)" using n ch by (simp add: s1 next_after_peek)
  then have "remaining cfg (appendNext cfg s1) = remaining cfg s2" by (simp add: appendNext_def)
  with next_Some [of cfg s c s2] n ch show ?thesis by simp
qed

lemma appendNext_peeked_less:
  "peek cfg s = (Some c, s1) \<Longrightarrow> length (remaining cfg (appendNext cfg s1)) < length (remaining cfg s)"
  by (simp add: appendNext_peeked)

function whitespaceLoop :: "Config \<Rightarrow> Scanner \<Rightarrow> Scanner" where
  "whitespaceLoop cfg s =
     (case peek cfg s of (ch, s1) \<Rightarrow>
        (case ch of
           None \<Rightarrow> s1
         | Some c \<Rightarrow>
             if \<not> isWhitespace cfg c then s1
             else whitespaceLoop cfg (appendNext cfg s1)))"
  by pat_completeness auto
termination
  by (relation "measure (\<lambda>(cfg, s). length (remaining cfg s))")
     (auto dest: appendNext_peeked_less [OF sym])

declare whitespaceLoop.simps [simp del]

function identLoop :: "Config \<Rightarrow> nat \<Rightarrow> Scanner \<Rightarrow> Scanner" where
  "identLoop cfg i s =
     (case peek cfg s of (ch, s1) \<Rightarrow>
        (case ch of
           None \<Rightarrow> s1
         | Some c \<Rightarrow>
             if \<not> isIdent cfg c i then s1
             else identLoop cfg (i + 1) (appendNext cfg s1)))"
  by pat_completeness auto
termination
  by (relation "measure (\<lambda>(cfg, i, s). length (remaining cfg s))")
     (auto dest: appendNext_peeked_less [OF sym])

declare identLoop.simps [simp del]

text \<open>The body of a string literal. The result is the error thrown, if any, and the state
  reached. The inner \<open>const ch\<close> of the escape test is \<open>ch2\<close>.\<close>

definition escapeStep :: "Config \<Rightarrow> jschar \<Rightarrow> jschar \<Rightarrow> Scanner \<Rightarrow> Scanner" where
  "escapeStep cfg delim c s =
     (if c = cu CHR 0x5C then
        (case peek cfg s of (ch2, s') \<Rightarrow>
           if ch2 = Some delim then appendNext cfg s' else s')
      else s)"

lemma escapeStep_le: "length (remaining cfg (escapeStep cfg delim c s)) \<le> length (remaining cfg s)"
proof -
  obtain ch2 s' where p: "peek cfg s = (ch2, s')" by (cases "peek cfg s")
  then have "s' = snd (peek cfg s)" by simp
  then have r: "remaining cfg s' = remaining cfg s" by simp
  with appendNext_le [of cfg s'] p show ?thesis by (simp add: escapeStep_def)
qed

function stringLoop :: "Config \<Rightarrow> jschar \<Rightarrow> Scanner \<Rightarrow> ScanError option \<times> Scanner" where
  "stringLoop cfg delim s =
     (case peek cfg s of (ch, s1) \<Rightarrow>
        (case ch of
           None \<Rightarrow> (Some LiteralNotTerminated, s1)
         | Some c \<Rightarrow>
             if c = cu CHR 0x0A then (Some LiteralNotTerminated, s1)
             else (let s2 = escapeStep cfg delim c (appendNext cfg s1)
                   in if c = delim then (None, s2) else stringLoop cfg delim s2)))"
  by pat_completeness auto
termination
proof (relation "measure (\<lambda>(cfg, delim, s). length (remaining cfg s))", goal_cases)
  case 1
  show ?case by simp
next
  case (2 cfg delim s ch s1 c s2)
  then have "length (remaining cfg (appendNext cfg s1)) < length (remaining cfg s)"
    by (auto dest: appendNext_peeked_less [OF sym])
  with escapeStep_le [of cfg delim c "appendNext cfg s1"] 2 show ?case by simp
qed

declare stringLoop.simps [simp del]

subsection \<open>Numeric literals\<close>

text \<open>The local \<open>check\<close>: the base predicate locked in, \<open>NoCheck\<close> for \<open>null\<close>.\<close>

datatype Check = NoCheck | CheckHex | CheckOctal | CheckBinary | CheckDecimal

fun runCheck :: "Config \<Rightarrow> Check \<Rightarrow> jschar \<Rightarrow> nat \<Rightarrow> bool" where
  "runCheck cfg NoCheck ch i = False"
| "runCheck cfg CheckHex ch i = isHex cfg ch i"
| "runCheck cfg CheckOctal ch i = isOctal cfg ch i"
| "runCheck cfg CheckBinary ch i = isBinary cfg ch i"
| "runCheck cfg CheckDecimal ch i = isDecimal cfg ch"

definition selectCheck :: "Config \<Rightarrow> Check \<Rightarrow> jschar \<Rightarrow> nat \<Rightarrow> Check" where
  "selectCheck cfg check ch i =
     (if check = NoCheck then
        (if isHex cfg ch i then CheckHex
         else if isOctal cfg ch i then CheckOctal
         else if isBinary cfg ch i then CheckBinary
         else if isDecimal cfg ch then CheckDecimal
         else NoCheck)
      else check)"

text \<open>The integer part, \<open>for (; ch; i += 1)\<close>. The loop test \<open>ch\<close> always holds: on entry
  \<open>ch\<close> is the first character, afterwards the character just consumed. The result is
  the flag \<open>isFloat\<close> and the state.\<close>

function integerPart :: "Config \<Rightarrow> Check \<Rightarrow> nat \<Rightarrow> Scanner \<Rightarrow> bool \<times> Scanner" where
  "integerPart cfg check i s =
     (case peek cfg s of (ch, s1) \<Rightarrow>
        (case ch of
           None \<Rightarrow> (False, s1)
         | Some c \<Rightarrow>
             if c = cu CHR ''.'' \<and> mode cfg AND scanFloats \<noteq> 0 then (True, appendNext cfg s1)
             else (let check' = selectCheck cfg check c i
                   in if check' = NoCheck \<or> \<not> runCheck cfg check' c i then (False, s1)
                      else integerPart cfg check' (i + 1) (appendNext cfg s1))))"
  by pat_completeness auto
termination
  by (relation "measure (\<lambda>(cfg, check, i, s). length (remaining cfg s))")
     (auto dest: appendNext_peeked_less [OF sym])

declare integerPart.simps [simp del]

text \<open>A run of decimal digits: the fractional part and the exponent digits are the same
  loop in the source.\<close>

function decimalRun :: "Config \<Rightarrow> Scanner \<Rightarrow> Scanner" where
  "decimalRun cfg s =
     (case peek cfg s of (ch, s1) \<Rightarrow>
        (case ch of
           None \<Rightarrow> s1
         | Some c \<Rightarrow>
             if \<not> isDecimal cfg c then s1
             else decimalRun cfg (appendNext cfg s1)))"
  by pat_completeness auto
termination
  by (relation "measure (\<lambda>(cfg, s). length (remaining cfg s))")
     (auto dest: appendNext_peeked_less [OF sym])

declare decimalRun.simps [simp del]

definition eNotation :: "Config \<Rightarrow> bool \<Rightarrow> Scanner \<Rightarrow> bool \<times> Scanner" where
  "eNotation cfg isFloat s =
     (case peek cfg s of (ch, s1) \<Rightarrow>
        (case ch of
           None \<Rightarrow> (isFloat, s1)
         | Some c \<Rightarrow>
             if isENotation cfg c \<and> mode cfg AND scanFloats \<noteq> 0 then
               (let s2 = appendNext cfg s1 in
                case peek cfg s2 of (ch2, s3) \<Rightarrow>
                  (let s4 = (case ch2 of
                               None \<Rightarrow> s3
                             | Some sg \<Rightarrow> if isSign cfg sg then appendNext cfg s3 else s3)
                   in (True, decimalRun cfg s4)))
             else (isFloat, s1)))"

text \<open>The numeric branch after the mask test: from \<open>this.contents = ch\<close> to the token
  returned.\<close>

definition scanNumber :: "Config \<Rightarrow> jschar \<Rightarrow> Scanner \<Rightarrow> Token \<times> Scanner" where
  "scanNumber cfg ch s =
     (let s0 = s\<lparr>contents := [ch]\<rparr>;
          isFloat0 = (ch = cu CHR ''.'')
      in case (if \<not> isFloat0 then integerPart cfg NoCheck 1 s0 else (isFloat0, s0)) of
           (isFloat1, s1) \<Rightarrow>
             (let s2 = (if isFloat1 then decimalRun cfg s1 else s1)
              in case eNotation cfg isFloat1 s2 of
                   (isFloat2, s3) \<Rightarrow>
                     if (case contents s3 of [x] \<Rightarrow> isSign cfg x | _ \<Rightarrow> False)
                     then (T_token, s3)
                     else (if isFloat2 then T_float else T_int, s3)))"

subsection \<open>Comments\<close>

function commentLoop ::
  "Config \<Rightarrow> bool \<Rightarrow> nat \<Rightarrow> Scanner \<Rightarrow> ScanError option \<times> Scanner" where
  "commentLoop cfg blockComment i s =
     (case peek cfg s of (ch, s1) \<Rightarrow>
        if \<not> blockComment \<and> (case ch of None \<Rightarrow> True | Some c \<Rightarrow> \<not> isComment cfg c i)
        then (None, s1)
        else (let s2 = appendNext cfg s1 in
              if blockComment then
                (case ch of
                   None \<Rightarrow> (Some CommentNotTerminated, s2)
                 | Some c \<Rightarrow>
                     (case peek cfg s2 of (pk, s3) \<Rightarrow>
                        if (case pk of None \<Rightarrow> False
                            | Some p \<Rightarrow> isBlockCommentClose cfg c 0 \<and> isBlockCommentClose cfg p 1)
                        then (None, appendNext cfg s3)
                        else commentLoop cfg blockComment (i + 1) s3))
              else commentLoop cfg blockComment (i + 1) s2))"
  by pat_completeness auto
termination
proof (relation "measure (\<lambda>(cfg, b, i, s). length (remaining cfg s))", goal_cases)
  case 1
  show ?case by simp
next
  case (2 cfg blockComment i s ch s1 s2 c pk s3)
  then have "peek cfg s = (Some c, s1)" by simp
  from appendNext_peeked_less [OF this] 2 have "length (remaining cfg s2) < length (remaining cfg s)"
    by simp
  moreover from 2 have "s3 = snd (peek cfg s2)" by (metis snd_conv)
  ultimately show ?case by simp
next
  case (3 cfg blockComment i s ch s1 s2)
  then obtain c where "peek cfg s = (Some c, s1)" by (cases ch) (auto dest: sym)
  from appendNext_peeked_less [OF this] 3 show ?case by simp
qed

declare commentLoop.simps [simp del]

subsection \<open>What a stretch of scanning consumes\<close>

text \<open>The position rule of \<open>next\<close> for one character, and its extension to a text.\<close>

definition advPos :: "int \<times> int \<Rightarrow> jschar \<Rightarrow> int \<times> int" where
  "advPos p c = (if c = cu CHR 0x0A then (fst p + 1, 0) else (fst p, snd p + 1))"

text \<open>\<open>consumed cfg s cs s'\<close>: between \<open>s\<close> and \<open>s'\<close> exactly the characters \<open>cs\<close> were taken from
  the front of the remaining text, appended to \<open>contents\<close>, and accounted for in the
  position; nothing else changed among the public fields.\<close>

definition consumed :: "Config \<Rightarrow> Scanner \<Rightarrow> jsstring \<Rightarrow> Scanner \<Rightarrow> bool" where
  "consumed cfg s cs s' \<longleftrightarrow>
     remaining cfg s = cs @ remaining cfg s' \<and> contents s' = contents s @ cs \<and>
     endPos s' = foldl advPos (endPos s) cs \<and>
     currentToken s' = currentToken s \<and> startPos s' = startPos s"

lemma consumed_refl: "consumed cfg s [] s"
  by (simp add: consumed_def)

lemma consumed_trans:
  "consumed cfg s cs s' \<Longrightarrow> consumed cfg s' ds s'' \<Longrightarrow> consumed cfg s (cs @ ds) s''"
  by (simp add: consumed_def)

lemma consumed_peek: "peek cfg s = (ch, s1) \<Longrightarrow> consumed cfg s [] s1"
proof -
  assume "peek cfg s = (ch, s1)"
  then have "s1 = snd (peek cfg s)" by simp
  then show ?thesis by (simp add: consumed_def endPos_def)
qed

lemma next_fields:
  assumes "next cfg s = (ch, s1)"
  shows "contents s1 = contents s" "currentToken s1 = currentToken s" "startPos s1 = startPos s"
    "line s1 = (if ch = Some (cu CHR 0x0A) then line s + 1 else line s)"
    "column s1 = (if ch = Some (cu CHR 0x0A) then 0 else column s + 1)"
proof -
  obtain s0 where p: "peek cfg s = (ch, s0)"
    using assms by (auto simp: next_def split: prod.splits)
  then have s0: "s0 = snd (peek cfg s)" by simp
  have f: "contents s0 = contents s" "currentToken s0 = currentToken s"
    "startPos s0 = startPos s" "line s0 = line s" "column s0 = column s"
    by (simp_all add: s0)
  from assms p f show "contents s1 = contents s" "currentToken s1 = currentToken s"
    "startPos s1 = startPos s"
    "line s1 = (if ch = Some (cu CHR 0x0A) then line s + 1 else line s)"
    "column s1 = (if ch = Some (cu CHR 0x0A) then 0 else column s + 1)"
    by (auto simp: next_def split: if_splits)
qed

lemma consumed_appendNext:
  assumes "peek cfg s = (Some c, s1)"
  shows "consumed cfg s [c] (appendNext cfg s1)"
proof -
  from assms have s1: "s1 = snd (peek cfg s)" by simp
  have "next cfg s1 = next cfg s" unfolding s1 by (rule next_after_peek)
  moreover have "fst (next cfg s) = Some c" using assms by (simp add: next_def)
  ultimately obtain s2 where n: "next cfg s1 = (Some c, s2)"
    by (cases "next cfg s") auto
  have a: "appendNext cfg s1 = s2\<lparr>contents := contents s1 @ [c]\<rparr>"
    using n by (simp add: appendNext_def)
  have "remaining cfg s = c # remaining cfg (appendNext cfg s1)"
    by (rule appendNext_peeked [OF assms])
  moreover have f: "contents s1 = contents s" "line s1 = line s" "column s1 = column s"
    "currentToken s1 = currentToken s" "startPos s1 = startPos s"
    unfolding s1 by simp_all
  moreover have "contents (appendNext cfg s1) = contents s @ [c]"
    by (simp add: a f)
  moreover have "endPos (appendNext cfg s1) = advPos (endPos s) c"
    using next_fields(4,5) [OF n] by (simp add: a endPos_def advPos_def f)
  moreover have "currentToken (appendNext cfg s1) = currentToken s"
    "startPos (appendNext cfg s1) = startPos s"
    using next_fields(2,3) [OF n] by (simp_all add: a f)
  ultimately show ?thesis by (simp add: consumed_def)
qed

lemma consumed_le: "consumed cfg s cs s' \<Longrightarrow> length (remaining cfg s') \<le> length (remaining cfg s)"
  by (simp add: consumed_def)

lemma whitespaceLoop_consumed: "\<exists>cs. consumed cfg s cs (whitespaceLoop cfg s)"
proof (induction cfg s rule: whitespaceLoop.induct)
  case (1 cfg s)
  obtain ch s1 where p: "peek cfg s = (ch, s1)" by (cases "peek cfg s")
  show ?case
  proof (cases ch)
    case None
    with p consumed_peek [OF p] show ?thesis
      by (subst whitespaceLoop.simps) auto
  next
    case (Some c)
    show ?thesis
    proof (cases "isWhitespace cfg c")
      case False
      with p Some consumed_peek [OF p] show ?thesis
        by (subst whitespaceLoop.simps) auto
    next
      case True
      from 1 [OF p [symmetric] Some] True
      obtain cs where "consumed cfg (appendNext cfg s1) cs (whitespaceLoop cfg (appendNext cfg s1))"
        by auto
      with consumed_appendNext [OF p [unfolded Some]]
      have "consumed cfg s ([c] @ cs) (whitespaceLoop cfg (appendNext cfg s1))"
        by (rule consumed_trans)
      with p Some True show ?thesis
        by (subst whitespaceLoop.simps) auto
    qed
  qed
qed

lemma identLoop_consumed: "\<exists>cs. consumed cfg s cs (identLoop cfg i s)"
proof (induction cfg i s rule: identLoop.induct)
  case (1 cfg i s)
  obtain ch s1 where p: "peek cfg s = (ch, s1)" by (cases "peek cfg s")
  show ?case
  proof (cases ch)
    case None
    with p consumed_peek [OF p] show ?thesis
      by (subst identLoop.simps) auto
  next
    case (Some c)
    show ?thesis
    proof (cases "isIdent cfg c i")
      case False
      with p Some consumed_peek [OF p] show ?thesis
        by (subst identLoop.simps) auto
    next
      case True
      from 1 [OF p [symmetric] Some] True
      obtain cs where "consumed cfg (appendNext cfg s1) cs (identLoop cfg (i + 1) (appendNext cfg s1))"
        by auto
      with consumed_appendNext [OF p [unfolded Some]]
      have "consumed cfg s ([c] @ cs) (identLoop cfg (i + 1) (appendNext cfg s1))"
        by (rule consumed_trans)
      with p Some True show ?thesis
        by (subst identLoop.simps) auto
    qed
  qed
qed

lemma decimalRun_consumed: "\<exists>cs. consumed cfg s cs (decimalRun cfg s)"
proof (induction cfg s rule: decimalRun.induct)
  case (1 cfg s)
  obtain ch s1 where p: "peek cfg s = (ch, s1)" by (cases "peek cfg s")
  show ?case
  proof (cases ch)
    case None
    with p consumed_peek [OF p] show ?thesis
      by (subst decimalRun.simps) auto
  next
    case (Some c)
    show ?thesis
    proof (cases "isDecimal cfg c")
      case False
      with p Some consumed_peek [OF p] show ?thesis
        by (subst decimalRun.simps) auto
    next
      case True
      from 1 [OF p [symmetric] Some] True
      obtain cs where "consumed cfg (appendNext cfg s1) cs (decimalRun cfg (appendNext cfg s1))"
        by auto
      with consumed_appendNext [OF p [unfolded Some]]
      have "consumed cfg s ([c] @ cs) (decimalRun cfg (appendNext cfg s1))"
        by (rule consumed_trans)
      with p Some True show ?thesis
        by (subst decimalRun.simps) auto
    qed
  qed
qed

lemma escapeStep_consumed: "\<exists>cs. consumed cfg s cs (escapeStep cfg delim c s)"
proof (cases "c = cu CHR 0x5C")
  case False
  then show ?thesis using consumed_refl by (auto simp: escapeStep_def)
next
  case True
  obtain ch2 s' where p: "peek cfg s = (ch2, s')" by (cases "peek cfg s")
  show ?thesis
  proof (cases "ch2 = Some delim")
    case False
    with True p consumed_peek [OF p] show ?thesis by (auto simp: escapeStep_def)
  next
    case d: True
    with consumed_appendNext [of cfg s delim s'] p True show ?thesis
      by (auto simp: escapeStep_def)
  qed
qed

lemma stringLoop_consumed: "\<exists>cs. consumed cfg s cs (snd (stringLoop cfg delim s))"
proof (induction cfg delim s rule: stringLoop.induct)
  case (1 cfg delim s)
  obtain ch s1 where p: "peek cfg s = (ch, s1)" by (cases "peek cfg s")
  show ?case
  proof (cases ch)
    case None
    with p consumed_peek [OF p] show ?thesis
      by (subst stringLoop.simps) auto
  next
    case (Some c)
    show ?thesis
    proof (cases "c = cu CHR 0x0A")
      case True
      with p Some consumed_peek [OF p] show ?thesis
        by (subst stringLoop.simps) auto
    next
      case False
      define s2 where "s2 = escapeStep cfg delim c (appendNext cfg s1)"
      obtain ds where "consumed cfg (appendNext cfg s1) ds s2"
        unfolding s2_def using escapeStep_consumed by blast
      with consumed_appendNext [OF p [unfolded Some]]
      have c2: "consumed cfg s ([c] @ ds) s2" by (rule consumed_trans)
      show ?thesis
      proof (cases "c = delim")
        case True
        with p Some False c2 show ?thesis
          by (subst stringLoop.simps) (auto simp: s2_def Let_def)
      next
        case nd: False
        from 1 [OF p [symmetric] Some False s2_def nd]
        obtain cs where "consumed cfg s2 cs (snd (stringLoop cfg delim s2))" by auto
        with c2 have "consumed cfg s (([c] @ ds) @ cs) (snd (stringLoop cfg delim s2))"
          by (rule consumed_trans)
        with p Some False nd show ?thesis
          by (subst stringLoop.simps) (auto simp: s2_def Let_def)
      qed
    qed
  qed
qed

lemma integerPart_consumed: "\<exists>cs. consumed cfg s cs (snd (integerPart cfg check i s))"
proof (induction cfg check i s rule: integerPart.induct)
  case (1 cfg check i s)
  obtain ch s1 where p: "peek cfg s = (ch, s1)" by (cases "peek cfg s")
  show ?case
  proof (cases ch)
    case None
    with p consumed_peek [OF p] show ?thesis
      by (subst integerPart.simps) auto
  next
    case (Some c)
    show ?thesis
    proof (cases "c = cu CHR ''.'' \<and> mode cfg AND scanFloats \<noteq> 0")
      case True
      with p Some consumed_appendNext [OF p [unfolded Some]] show ?thesis
        by (subst integerPart.simps) auto
    next
      case False
      define check' where "check' = selectCheck cfg check c i"
      show ?thesis
      proof (cases "check' = NoCheck \<or> \<not> runCheck cfg check' c i")
        case True
        with p Some False consumed_peek [OF p] show ?thesis
          by (subst integerPart.simps) (auto simp: check'_def Let_def)
      next
        case go: False
        from 1 [OF p [symmetric] Some False check'_def go]
        obtain cs where
          "consumed cfg (appendNext cfg s1) cs (snd (integerPart cfg check' (i + 1) (appendNext cfg s1)))"
          by auto
        with consumed_appendNext [OF p [unfolded Some]]
        have "consumed cfg s ([c] @ cs) (snd (integerPart cfg check' (i + 1) (appendNext cfg s1)))"
          by (rule consumed_trans)
        with p Some False go show ?thesis
          by (subst integerPart.simps) (auto simp: check'_def Let_def)
      qed
    qed
  qed
qed

lemma eNotation_consumed: "\<exists>cs. consumed cfg s cs (snd (eNotation cfg isFloat s))"
proof -
  obtain ch s1 where p: "peek cfg s = (ch, s1)" by (cases "peek cfg s")
  show ?thesis
  proof (cases ch)
    case None
    with p consumed_peek [OF p] show ?thesis by (auto simp: eNotation_def)
  next
    case (Some c)
    show ?thesis
    proof (cases "isENotation cfg c \<and> mode cfg AND scanFloats \<noteq> 0")
      case False
      with p Some consumed_peek [OF p] show ?thesis by (auto simp: eNotation_def)
    next
      case True
      define s2 where "s2 = appendNext cfg s1"
      obtain ch2 s3 where p2: "peek cfg s2 = (ch2, s3)" by (cases "peek cfg s2")
      define s4 where "s4 = (case ch2 of None \<Rightarrow> s3
          | Some sg \<Rightarrow> if isSign cfg sg then appendNext cfg s3 else s3)"
      have c2: "consumed cfg s [c] s2"
        unfolding s2_def by (rule consumed_appendNext [OF p [unfolded Some]])
      have "\<exists>ds. consumed cfg s2 ds s4"
      proof (cases ch2)
        case None
        then show ?thesis using consumed_peek [OF p2] by (auto simp: s4_def)
      next
        case (Some sg)
        then show ?thesis
          using consumed_peek [OF p2] consumed_appendNext [of cfg s2 sg s3] p2
          by (auto simp: s4_def)
      qed
      then obtain ds where "consumed cfg s2 ds s4" ..
      with c2 have c4: "consumed cfg s ([c] @ ds) s4" by (rule consumed_trans)
      obtain es where "consumed cfg s4 es (decimalRun cfg s4)"
        using decimalRun_consumed by blast
      with c4 have "consumed cfg s (([c] @ ds) @ es) (decimalRun cfg s4)" by (rule consumed_trans)
      moreover have "snd (eNotation cfg isFloat s) = decimalRun cfg s4"
        using p Some True p2 by (simp add: eNotation_def s2_def s4_def Let_def)
      ultimately show ?thesis by auto
    qed
  qed
qed

lemma scanNumber_consumed:
  "\<exists>cs. consumed cfg (s\<lparr>contents := [ch]\<rparr>) cs (snd (scanNumber cfg ch s))"
proof -
  define s0 where "s0 = s\<lparr>contents := [ch]\<rparr>"
  define r1 where "r1 = (if \<not> ch = cu CHR ''.'' then integerPart cfg NoCheck 1 s0 else (ch = cu CHR ''.'', s0))"
  define s2 where "s2 = (if fst r1 then decimalRun cfg (snd r1) else snd r1)"
  define r3 where "r3 = eNotation cfg (fst r1) s2"
  have e: "snd (scanNumber cfg ch s) = snd r3"
    by (simp add: scanNumber_def Let_def r3_def s2_def r1_def s0_def split: prod.splits)
  have "\<exists>as. consumed cfg s0 as (snd r1)"
    using integerPart_consumed [of cfg s0 NoCheck 1] consumed_refl [of cfg s0]
    by (auto simp: r1_def)
  then obtain as where a: "consumed cfg s0 as (snd r1)" ..
  have "\<exists>bs. consumed cfg (snd r1) bs s2"
    using decimalRun_consumed [of cfg "snd r1"] consumed_refl [of cfg "snd r1"]
    by (auto simp: s2_def)
  then obtain bs where b: "consumed cfg (snd r1) bs s2" ..
  have "\<exists>cs. consumed cfg s2 cs (snd r3)"
    using eNotation_consumed [of cfg s2 "fst r1"] by (auto simp: r3_def)
  then obtain cs where c: "consumed cfg s2 cs (snd r3)" ..
  from consumed_trans [OF consumed_trans [OF a b] c] e show ?thesis
    by (auto simp: s0_def)
qed

lemma commentLoop_consumed:
  "fst (commentLoop cfg b i s) = None \<Longrightarrow> \<exists>cs. consumed cfg s cs (snd (commentLoop cfg b i s))"
proof (induction cfg b i s rule: commentLoop.induct)
  case (1 cfg blockComment i s)
  obtain ch s1 where p: "peek cfg s = (ch, s1)" by (cases "peek cfg s")
  show ?case
  proof (cases "\<not> blockComment \<and> (case ch of None \<Rightarrow> True | Some c \<Rightarrow> \<not> isComment cfg c i)")
    case True
    with p consumed_peek [OF p] show ?thesis
      by (subst commentLoop.simps) auto
  next
    case False
    define s2 where "s2 = appendNext cfg s1"
    show ?thesis
    proof (cases ch)
      case None
      with False have "blockComment" by auto
      with p None False have "fst (commentLoop cfg blockComment i s) = Some CommentNotTerminated"
        by (subst commentLoop.simps) (simp add: Let_def)
      with 1(3) show ?thesis by simp
    next
      case (Some c)
      have c2: "consumed cfg s [c] s2"
        unfolding s2_def by (rule consumed_appendNext [OF p [unfolded Some]])
      show ?thesis
      proof (cases blockComment)
        case nb: False
        with p False Some
        have e: "commentLoop cfg blockComment i s = commentLoop cfg blockComment (i + 1) s2"
          by (subst commentLoop.simps) (simp add: Let_def s2_def)
        with 1(3) have "fst (commentLoop cfg blockComment (i + 1) s2) = None" by simp
        from 1(2) [OF p [symmetric] False s2_def nb this]
        obtain cs where "consumed cfg s2 cs (snd (commentLoop cfg blockComment (i + 1) s2))" by auto
        with c2 have "consumed cfg s ([c] @ cs) (snd (commentLoop cfg blockComment (i + 1) s2))"
          by (rule consumed_trans)
        with e show ?thesis by auto
      next
        case bc: True
        obtain pk s3 where p3: "peek cfg s2 = (pk, s3)" by (cases "peek cfg s2")
        from c2 consumed_peek [OF p3] have c3: "consumed cfg s ([c] @ []) s3"
          by (rule consumed_trans)
        show ?thesis
        proof (cases "case pk of None \<Rightarrow> False
              | Some p \<Rightarrow> isBlockCommentClose cfg c 0 \<and> isBlockCommentClose cfg p 1")
          case True
          then obtain q where q: "pk = Some q" by (cases pk) auto
          from consumed_appendNext [OF p3 [unfolded q]] c2
          have "consumed cfg s ([c] @ [q]) (appendNext cfg s3)"
            by (rule consumed_trans [rotated])
          moreover from p False Some bc p3 True
          have "commentLoop cfg blockComment i s = (None, appendNext cfg s3)"
            by (subst commentLoop.simps) (simp add: Let_def s2_def)
          ultimately show ?thesis by auto
        next
          case nc: False
          with p False Some bc p3
          have e: "commentLoop cfg blockComment i s = commentLoop cfg blockComment (i + 1) s3"
            by (subst commentLoop.simps) (simp add: Let_def s2_def)
          with 1(3) have "fst (commentLoop cfg blockComment (i + 1) s3) = None" by simp
          from 1(1) [OF p [symmetric] False s2_def bc Some p3 [symmetric] nc this]
          obtain cs where "consumed cfg s3 cs (snd (commentLoop cfg blockComment (i + 1) s3))" by auto
          with c3 have "consumed cfg s (([c] @ []) @ cs) (snd (commentLoop cfg blockComment (i + 1) s3))"
            by (rule consumed_trans)
          with e show ?thesis by auto
        qed
      qed
    qed
  qed
qed

lemma scan_start:
  assumes "(Some ch, s1) = next cfg s" "(pk, s2) = peek cfg s1"
  shows "remaining cfg s = ch # remaining cfg s2"
proof -
  from assms(2) have "s2 = snd (peek cfg s1)" by (metis snd_conv)
  then have "remaining cfg s2 = remaining cfg s1" by simp
  with next_Some [OF assms(1) [symmetric]] show ?thesis by simp
qed

subsection \<open>scan\<close>

text \<open>The state in which \<open>scan\<close> returns \<open>eof\<close>: empty contents, the column increment of
  \<open>next\<close> rolled back, \<open>startPos\<close> set to the position.\<close>

definition eofState :: "Scanner \<Rightarrow> Scanner" where
  "eofState s =
     (let s' = s\<lparr>contents := [], column := column s - 1\<rparr>
      in s'\<lparr>startPos := (line s', column s'), currentToken := Some T_eof\<rparr>)"

text \<open>\<open>return this.currentToken = t\<close>.\<close>

definition returnToken :: "Token \<Rightarrow> Scanner \<Rightarrow> (ScanError + Token) \<times> Scanner" where
  "returnToken t s = (Inr t, s\<lparr>currentToken := Some t\<rparr>)"

text \<open>\<open>scan\<close>. The result is the token returned or the error thrown, with the state the
  scanner is left in. A skipped category calls \<open>scan\<close> again. After the chain of branches
  the source tests \<open>!ch\<close> once more; \<open>ch\<close> is a character there, so the fallback token is
  all that remains.\<close>

function scan :: "Config \<Rightarrow> Scanner \<Rightarrow> (ScanError + Token) \<times> Scanner" where
  "scan cfg s =
     (case next cfg s of (ch0, s1) \<Rightarrow>
      case peek cfg s1 of (pk, s2) \<Rightarrow>
        (let s3 = s2\<lparr>startPos := (line s2, column s2)\<rparr> in
         case ch0 of
           None \<Rightarrow> (Inr T_eof, eofState s3)
         | Some ch \<Rightarrow>
             if isWhitespace cfg ch then
               (let s4 = whitespaceLoop cfg (s3\<lparr>contents := [ch]\<rparr>) in
                if mode cfg AND scanWhitespace = 0 then scan cfg s4
                else returnToken T_whitespace s4)
             else if isIdent cfg ch 0 then
               (let s4 = identLoop cfg 1 (s3\<lparr>contents := [ch]\<rparr>) in
                if mode cfg AND scanIdents = 0 then scan cfg s4
                else returnToken (if isKeyword cfg (contents s4) then T_keyword
                                  else T_identifier) s4)
             else if isStringDelimiter cfg ch then
               (case stringLoop cfg ch (s3\<lparr>contents := [ch]\<rparr>) of
                  (Some e, s4) \<Rightarrow> (Inl e, s4)
                | (None, s4) \<Rightarrow>
                    if mode cfg AND scanStrings = 0 then scan cfg s4
                    else returnToken T_string s4)
             else if isDecimal cfg ch \<or> isSign cfg ch \<or>
                     (ch = cu CHR ''.'' \<and> (case pk of None \<Rightarrow> False | Some p \<Rightarrow> isDecimal cfg p))
             then
               (if mode cfg AND (scanInts OR scanFloats) = 0 then scan cfg s3
                else (case scanNumber cfg ch s3 of (t, s4) \<Rightarrow> returnToken t s4))
             else if isComment cfg ch 0 \<or> isBlockCommentOpen cfg ch 0 then
               (let blockComment =
                      (case pk of None \<Rightarrow> False
                       | Some p \<Rightarrow> isBlockCommentOpen cfg ch 0 \<and> isBlockCommentOpen cfg p 1)
                in case commentLoop cfg blockComment 1 (s3\<lparr>contents := [ch]\<rparr>) of
                     (Some e, s4) \<Rightarrow> (Inl e, s4)
                   | (None, s4) \<Rightarrow>
                       if mode cfg AND scanComments = 0 then scan cfg s4
                       else returnToken T_comment s4)
             else returnToken T_token (s3\<lparr>contents := [ch]\<rparr>)))"
  by pat_completeness auto

termination
proof (relation "measure (\<lambda>(cfg, s). length (remaining cfg s))", goal_cases)
  case 1
  show ?case by simp
next
  case (2 cfg s ch0 s1 pk s2 s3 ch s4)
  have "remaining cfg s = ch # remaining cfg s2"
    using 2(1,2) unfolding 2(4) by (rule scan_start)
  moreover have "length (remaining cfg s4) \<le> length (remaining cfg (s3\<lparr>contents := [ch]\<rparr>))"
    unfolding 2(6) using whitespaceLoop_consumed consumed_le by blast
  ultimately show ?case by (simp add: 2(3))
next
  case (3 cfg s ch0 s1 pk s2 s3 ch s4)
  have "remaining cfg s = ch # remaining cfg s2"
    using 3(1,2) unfolding 3(4) by (rule scan_start)
  moreover have "length (remaining cfg s4) \<le> length (remaining cfg (s3\<lparr>contents := [ch]\<rparr>))"
    unfolding 3(7) using identLoop_consumed consumed_le by blast
  ultimately show ?case by (simp add: 3(3))
next
  case (4 cfg s ch0 s1 pk s2 s3 ch e s4)
  have "remaining cfg s = ch # remaining cfg s2"
    using 4(1,2) unfolding 4(4) by (rule scan_start)
  moreover have "s4 = snd (stringLoop cfg ch (s3\<lparr>contents := [ch]\<rparr>))"
    using 4(8) by (metis snd_conv)
  then have "length (remaining cfg s4) \<le> length (remaining cfg (s3\<lparr>contents := [ch]\<rparr>))"
    using stringLoop_consumed consumed_le by blast
  ultimately show ?case by (simp add: 4(3))
next
  case (5 cfg s ch0 s1 pk s2 s3 ch)
  have "remaining cfg s = ch # remaining cfg s2"
    using 5(1,2) unfolding 5(4) by (rule scan_start)
  then show ?case by (simp add: 5(3))
next
  case (6 cfg s ch0 s1 pk s2 s3 ch blockComment e s4)
  have "remaining cfg s = ch # remaining cfg s2"
    using 6(1,2) unfolding 6(4) by (rule scan_start)
  moreover have "commentLoop cfg blockComment 1 (s3\<lparr>contents := [ch]\<rparr>) = (None, s4)"
    using 6(11,12) by simp
  then have "fst (commentLoop cfg blockComment 1 (s3\<lparr>contents := [ch]\<rparr>)) = None"
    "s4 = snd (commentLoop cfg blockComment 1 (s3\<lparr>contents := [ch]\<rparr>))" by simp_all
  then have "length (remaining cfg s4) \<le> length (remaining cfg (s3\<lparr>contents := [ch]\<rparr>))"
    using commentLoop_consumed consumed_le by blast
  ultimately show ?case by (simp add: 6(3))
qed

declare scan.simps [simp del]

section \<open>One pass of scan\<close>

text \<open>For the proofs, the body of \<open>scan\<close> is read as one pass that either finishes
  (\<open>Done\<close>: a token returned or an error thrown) or reaches one of the five mask tests
  (\<open>Gated\<close>: the mask tested, the state from which \<open>scan\<close> starts again when the test
  fails, and the token and state returned when it succeeds). \<open>scan_attempt\<close> below shows
  that \<open>scan\<close> is this pass followed by the mask test.\<close>

datatype Attempt =
    Done "(ScanError + Token) \<times> Scanner"
  | Gated "32 word" Scanner "Token \<times> Scanner"

definition attempt :: "Config \<Rightarrow> Scanner \<Rightarrow> Attempt" where
  "attempt cfg s =
     (case next cfg s of (ch0, s1) \<Rightarrow>
      case peek cfg s1 of (pk, s2) \<Rightarrow>
        (let s3 = s2\<lparr>startPos := (line s2, column s2)\<rparr> in
         case ch0 of
           None \<Rightarrow> Done (Inr T_eof, eofState s3)
         | Some ch \<Rightarrow>
             if isWhitespace cfg ch then
               (let s4 = whitespaceLoop cfg (s3\<lparr>contents := [ch]\<rparr>) in
                Gated scanWhitespace s4 (T_whitespace, s4))
             else if isIdent cfg ch 0 then
               (let s4 = identLoop cfg 1 (s3\<lparr>contents := [ch]\<rparr>) in
                Gated scanIdents s4
                  (if isKeyword cfg (contents s4) then T_keyword else T_identifier, s4))
             else if isStringDelimiter cfg ch then
               (case stringLoop cfg ch (s3\<lparr>contents := [ch]\<rparr>) of
                  (Some e, s4) \<Rightarrow> Done (Inl e, s4)
                | (None, s4) \<Rightarrow> Gated scanStrings s4 (T_string, s4))
             else if isDecimal cfg ch \<or> isSign cfg ch \<or>
                     (ch = cu CHR ''.'' \<and> (case pk of None \<Rightarrow> False | Some p \<Rightarrow> isDecimal cfg p))
             then Gated (scanInts OR scanFloats) s3 (scanNumber cfg ch s3)
             else if isComment cfg ch 0 \<or> isBlockCommentOpen cfg ch 0 then
               (let blockComment =
                      (case pk of None \<Rightarrow> False
                       | Some p \<Rightarrow> isBlockCommentOpen cfg ch 0 \<and> isBlockCommentOpen cfg p 1)
                in case commentLoop cfg blockComment 1 (s3\<lparr>contents := [ch]\<rparr>) of
                     (Some e, s4) \<Rightarrow> Done (Inl e, s4)
                   | (None, s4) \<Rightarrow> Gated scanComments s4 (T_comment, s4))
             else Done (returnToken T_token (s3\<lparr>contents := [ch]\<rparr>))))"

definition resolve :: "Config \<Rightarrow> Attempt \<Rightarrow> (ScanError + Token) \<times> Scanner" where
  "resolve cfg a =
     (case a of
        Done r \<Rightarrow> r
      | Gated m sk (t, se) \<Rightarrow>
          if mode cfg AND m = 0 then scan cfg sk else returnToken t se)"

lemma scan_attempt: "scan cfg s = resolve cfg (attempt cfg s)"
  by (subst scan.simps)
     (simp add: attempt_def resolve_def Let_def split: prod.splits option.splits)

subsection \<open>The exhausted cursor\<close>

text \<open>\<open>drained\<close>: the working buffer is empty and the reader answers \<open>null\<close>.\<close>

definition drained :: "Config \<Rightarrow> Scanner \<Rightarrow> bool" where
  "drained cfg s \<longleftrightarrow>
     buffer s = [] \<and> defaultRead (reader s) (chunkBuffer cfg) (decoder cfg) = (None, reader s)"

lemma fill_drained: "drained cfg s \<Longrightarrow> fill cfg s = s"
  by (subst fill.simps) (simp add: drained_def MIN_READ_def)

lemma peek_None_drained:
  assumes "peek cfg s = (None, s1)"
  shows "drained cfg s1" "bufPos s1 = 0"
proof -
  from assms have ge: "bufPos s \<ge> length (buffer s)"
    and s1: "s1 = fill cfg (s\<lparr>bufPos := 0, buffer := []\<rparr>)"
    by (auto simp: peek_def Let_def split: if_splits)
  from assms ge have e: "buffer s1 = []"
    by (auto simp: peek_def Let_def split: if_splits)
  show "bufPos s1 = 0" by (simp add: s1)
  from e fill_exhausted [of cfg "s\<lparr>bufPos := 0, buffer := []\<rparr>"]
  show "drained cfg s1" by (simp add: drained_def s1 MIN_READ_def)
qed

lemma peek_drained:
  assumes "drained cfg s"
  shows "peek cfg s = (None, s\<lparr>bufPos := 0\<rparr>)"
proof -
  have d: "drained cfg (s\<lparr>bufPos := 0, buffer := []\<rparr>)"
    using assms by (simp add: drained_def)
  have e: "s\<lparr>bufPos := 0, buffer := []\<rparr> = s\<lparr>bufPos := 0\<rparr>"
    using assms by (simp add: drained_def)
  have f: "fill cfg (s\<lparr>bufPos := 0\<rparr>) = s\<lparr>bufPos := 0\<rparr>"
    using fill_drained [OF d] by (simp only: e)
  have b: "buffer s = []" using assms by (simp add: drained_def)
  show ?thesis by (simp add: peek_def Let_def e f b)
qed

lemma drained_upd [simp]:
  "drained cfg (s\<lparr>bufPos := k\<rparr>) = drained cfg s"
  "drained cfg (s\<lparr>line := l\<rparr>) = drained cfg s"
  "drained cfg (s\<lparr>column := c\<rparr>) = drained cfg s"
  "drained cfg (s\<lparr>contents := x\<rparr>) = drained cfg s"
  "drained cfg (s\<lparr>currentToken := t\<rparr>) = drained cfg s"
  "drained cfg (s\<lparr>startPos := p\<rparr>) = drained cfg s"
  by (simp_all add: drained_def)

text \<open>On a drained cursor \<open>scan\<close> makes its eof pass and comes back to the state it
  started from, apart from the fields that pass sets.\<close>

lemma attempt_drained:
  assumes "drained cfg s"
  shows "attempt cfg s = Done (Inr T_eof,
           s\<lparr>bufPos := 0, contents := [], startPos := (line s, column s),
             currentToken := Some T_eof\<rparr>)"
proof -
  have n: "next cfg s = (None, s\<lparr>bufPos := Suc 0, column := column s + 1\<rparr>)"
    using peek_drained [OF assms] by (simp add: next_def)
  have "drained cfg (s\<lparr>bufPos := Suc 0, column := column s + 1\<rparr>)"
    using assms by simp
  from peek_drained [OF this]
  have p: "peek cfg (s\<lparr>bufPos := Suc 0, column := column s + 1\<rparr>)
             = (None, s\<lparr>bufPos := 0, column := column s + 1\<rparr>)"
    by simp
  show ?thesis
    by (simp add: attempt_def n p eofState_def Let_def)
qed

lemma attempt_eof:
  assumes "attempt cfg s = Done (Inr T_eof, s')"
  shows "drained cfg s'" "bufPos s' = 0" "contents s' = []" "startPos s' = endPos s'"
    "currentToken s' = Some T_eof" "endPos s' = endPos s" "remaining cfg s' = remaining cfg s"
proof -
  obtain ch0 s1 where n: "next cfg s = (ch0, s1)" by (cases "next cfg s")
  obtain pk s2 where p: "peek cfg s1 = (pk, s2)" by (cases "peek cfg s1")
  have ch0: "ch0 = None"
  proof (cases ch0)
    case (Some ch)
    with assms n p show ?thesis
      by (auto simp: attempt_def Let_def returnToken_def split: if_splits prod.splits option.splits)
  qed simp
  from assms n p ch0 have s': "s' = eofState (s2\<lparr>startPos := (line s2, column s2)\<rparr>)"
    by (simp add: attempt_def Let_def)
  obtain s0 where p0: "peek cfg s = (None, s0)"
    using n ch0 by (auto simp: next_def split: prod.splits)
  from n ch0 p0 have s1: "s1 = s0\<lparr>bufPos := bufPos s0 + 1, column := column s0 + 1\<rparr>"
    by (simp add: next_def)
  have d0: "drained cfg s0" "bufPos s0 = 0" by (rule peek_None_drained [OF p0])+
  then have "drained cfg s1" by (simp add: s1)
  from peek_drained [OF this] p have s2: "s2 = s1\<lparr>bufPos := 0\<rparr>" and "pk = None" by simp_all
  from p0 have s0: "s0 = snd (peek cfg s)" by simp
  have f0: "line s0 = line s" "column s0 = column s" "remaining cfg s0 = remaining cfg s"
    by (simp_all add: s0)
  show "drained cfg s'" using d0 by (simp add: s' s2 s1 eofState_def Let_def)
  show "bufPos s' = 0" by (simp add: s' s2 eofState_def Let_def)
  show "contents s' = []" by (simp add: s' eofState_def Let_def)
  show "startPos s' = endPos s'" by (simp add: s' eofState_def Let_def endPos_def)
  show "currentToken s' = Some T_eof" by (simp add: s' eofState_def Let_def)
  show "endPos s' = endPos s" by (simp add: s' s2 s1 f0 eofState_def Let_def endPos_def)
  have "remaining cfg s' = remaining cfg s0"
    using d0 by (simp add: s' s2 s1 eofState_def Let_def remaining_def drained_def)
  then show "remaining cfg s' = remaining cfg s" by (simp add: f0)
qed

lemma attempt_eof_fixed:
  assumes "attempt cfg s = Done (Inr T_eof, s')"
  shows "attempt cfg s' = Done (Inr T_eof, s')"
proof -
  note f = attempt_eof [OF assms]
  have "s'\<lparr>bufPos := 0, contents := [], startPos := (line s', column s'),
             currentToken := Some T_eof\<rparr> = s'"
    using f(2-5) by (simp add: endPos_def)
  with attempt_drained [OF f(1)] show ?thesis by simp
qed

subsection \<open>What one pass does\<close>

text \<open>\<open>starts cfg s ch first\<close>: \<open>first\<close> is the state of a pass right after its first
  character \<open>ch\<close> has been taken and stored as the contents.\<close>

definition starts :: "Config \<Rightarrow> Scanner \<Rightarrow> jschar \<Rightarrow> Scanner \<Rightarrow> bool" where
  "starts cfg s ch first \<longleftrightarrow>
     remaining cfg s = ch # remaining cfg first \<and> endPos first = advPos (endPos s) ch \<and>
     contents first = [ch] \<and> startPos first = endPos first \<and>
     currentToken first = currentToken s"

lemma starts_intro:
  assumes "next cfg s = (Some ch, s1)" "peek cfg s1 = (pk, s2)"
  shows "starts cfg s ch (s2\<lparr>startPos := (line s2, column s2), contents := [ch]\<rparr>)"
proof -
  from assms(2) have s2: "s2 = snd (peek cfg s1)" by simp
  have f: "remaining cfg s2 = remaining cfg s1" "line s2 = line s1" "column s2 = column s1"
    "currentToken s2 = currentToken s1"
    by (simp_all add: s2)
  from next_Some [OF assms(1)] next_fields [OF assms(1)] f show ?thesis
    by (simp add: starts_def endPos_def advPos_def)
qed

lemma attempt_token:
  assumes "attempt cfg s = Done (Inr t, s')" "t \<noteq> T_eof"
  shows "t = T_token \<and> (\<exists>ch first. starts cfg s ch first \<and> s' = first\<lparr>currentToken := Some T_token\<rparr>)"
proof -
  obtain ch0 s1 where n: "next cfg s = (ch0, s1)" by (cases "next cfg s")
  obtain pk s2 where p: "peek cfg s1 = (pk, s2)" by (cases "peek cfg s1")
  from assms n p obtain ch where ch: "ch0 = Some ch"
    by (cases ch0) (auto simp: attempt_def Let_def)
  define first where "first = s2\<lparr>startPos := (line s2, column s2), contents := [ch]\<rparr>"
  have st: "starts cfg s ch first"
    unfolding first_def using n p unfolding ch by (rule starts_intro)
  from assms(1) n p ch have "t = T_token \<and> s' = first\<lparr>currentToken := Some T_token\<rparr>"
    by (auto simp: attempt_def Let_def returnToken_def first_def
             split: if_splits prod.splits option.splits)
  with st show ?thesis by blast
qed

lemma scanNumber_token: "fst (scanNumber cfg ch s) \<in> {T_token, T_int, T_float}"
  by (simp add: scanNumber_def Let_def split: prod.splits)

lemma attempt_Gated:
  assumes "attempt cfg s = Gated m sk (t, se)"
  shows "\<exists>ch first cs. starts cfg s ch first \<and> consumed cfg first cs se \<and> t \<noteq> T_eof \<and>
           (sk = se \<or> first = sk\<lparr>contents := [ch]\<rparr>)"
proof -
  obtain ch0 s1 where n: "next cfg s = (ch0, s1)" by (cases "next cfg s")
  obtain pk s2 where p: "peek cfg s1 = (pk, s2)" by (cases "peek cfg s1")
  from assms n p obtain ch where ch: "ch0 = Some ch"
    by (cases ch0) (auto simp: attempt_def Let_def)
  define s3 where "s3 = s2\<lparr>startPos := (line s2, column s2)\<rparr>"
  define first where "first = s3\<lparr>contents := [ch]\<rparr>"
  have st: "starts cfg s ch first"
    unfolding first_def s3_def using starts_intro [OF n [unfolded ch] p] by simp
  have a: "attempt cfg s =
     (if isWhitespace cfg ch then
        Gated scanWhitespace (whitespaceLoop cfg first) (T_whitespace, whitespaceLoop cfg first)
      else if isIdent cfg ch 0 then
        Gated scanIdents (identLoop cfg 1 first)
          (if isKeyword cfg (contents (identLoop cfg 1 first)) then T_keyword else T_identifier,
           identLoop cfg 1 first)
      else if isStringDelimiter cfg ch then
        (case stringLoop cfg ch first of
           (Some e, s4) \<Rightarrow> Done (Inl e, s4)
         | (None, s4) \<Rightarrow> Gated scanStrings s4 (T_string, s4))
      else if isDecimal cfg ch \<or> isSign cfg ch \<or>
              (ch = cu CHR ''.'' \<and> (case pk of None \<Rightarrow> False | Some p \<Rightarrow> isDecimal cfg p))
      then Gated (scanInts OR scanFloats) s3 (scanNumber cfg ch s3)
      else if isComment cfg ch 0 \<or> isBlockCommentOpen cfg ch 0 then
        (case commentLoop cfg (case pk of None \<Rightarrow> False
                | Some p \<Rightarrow> isBlockCommentOpen cfg ch 0 \<and> isBlockCommentOpen cfg p 1) 1 first of
           (Some e, s4) \<Rightarrow> Done (Inl e, s4)
         | (None, s4) \<Rightarrow> Gated scanComments s4 (T_comment, s4))
      else Done (returnToken T_token first))"
    by (simp add: attempt_def n p ch Let_def first_def s3_def)
  show ?thesis
  proof (cases "isWhitespace cfg ch")
    case True
    with a assms have "se = whitespaceLoop cfg first" "sk = se" "t = T_whitespace" by simp_all
    with whitespaceLoop_consumed [of cfg first] st show ?thesis by auto
  next
    case nw: False
    show ?thesis
    proof (cases "isIdent cfg ch 0")
      case True
      with a assms nw have "se = identLoop cfg 1 first" "sk = se" "t \<noteq> T_eof"
        by (auto split: if_splits)
      with identLoop_consumed [of cfg first 1] st show ?thesis by auto
    next
      case ni: False
      show ?thesis
      proof (cases "isStringDelimiter cfg ch")
        case True
        with a assms nw ni have "se = snd (stringLoop cfg ch first)" "sk = se" "t = T_string"
          by (auto split: prod.splits option.splits)
        with stringLoop_consumed [of cfg first ch] st show ?thesis by auto
      next
        case ns: False
        show ?thesis
        proof (cases "isDecimal cfg ch \<or> isSign cfg ch \<or>
              (ch = cu CHR ''.'' \<and> (case pk of None \<Rightarrow> False | Some p \<Rightarrow> isDecimal cfg p))")
          case True
          with a assms nw ni ns have e: "sk = s3" "(t, se) = scanNumber cfg ch s3" by simp_all
          then have "se = snd (scanNumber cfg ch s3)" "t = fst (scanNumber cfg ch s3)"
            by (metis snd_conv, metis fst_conv)
          with scanNumber_consumed [where s = s3 and ch = ch and cfg = cfg]
            scanNumber_token [of cfg ch s3]
          have "\<exists>cs. consumed cfg first cs se" "t \<noteq> T_eof" by (auto simp: first_def)
          with st e(1) show ?thesis
            by (intro exI [of _ ch] exI [of _ first]) (auto simp: first_def)
        next
          case nn: False
          show ?thesis
          proof (cases "isComment cfg ch 0 \<or> isBlockCommentOpen cfg ch 0")
            case True
            define b where "b = (case pk of None \<Rightarrow> False
                | Some p \<Rightarrow> isBlockCommentOpen cfg ch 0 \<and> isBlockCommentOpen cfg p 1)"
            from a assms nw ni ns nn True
            have "commentLoop cfg b 1 first = (None, se)" "sk = se" "t = T_comment"
              by (auto simp: b_def split: prod.splits option.splits)
            with commentLoop_consumed [of cfg b 1 first] st show ?thesis by auto
          next
            case False
            with a assms nw ni ns nn show ?thesis by simp
          qed
        qed
      qed
    qed
  qed
qed

lemma attempt_Gated_mask:
  assumes "attempt cfg s = Gated m sk r"
  shows "m \<in> {scanWhitespace, scanIdents, scanStrings, scanInts OR scanFloats, scanComments}"
proof -
  obtain ch0 s1 where n: "next cfg s = (ch0, s1)" by (cases "next cfg s")
  obtain pk s2 where p: "peek cfg s1 = (pk, s2)" by (cases "peek cfg s1")
  from assms n p show ?thesis
    by (auto simp: attempt_def Let_def returnToken_def
             split: if_splits prod.splits option.splits)
qed

text \<open>The text a pass leaves behind when its token is skipped.\<close>

lemma attempt_Gated_skip:
  assumes "attempt cfg s = Gated m sk (t, se)"
  shows "\<exists>ds. remaining cfg s = ds @ remaining cfg sk \<and> ds \<noteq> [] \<and>
           endPos sk = foldl advPos (endPos s) ds \<and> currentToken sk = currentToken s"
proof -
  from attempt_Gated [OF assms] obtain ch first cs where
    st: "starts cfg s ch first" and c: "consumed cfg first cs se" and
    d: "sk = se \<or> first = sk\<lparr>contents := [ch]\<rparr>" by blast
  from d show ?thesis
  proof
    assume "sk = se"
    with st c show ?thesis
      by (intro exI [of _ "ch # cs"]) (simp add: starts_def consumed_def)
  next
    assume "first = sk\<lparr>contents := [ch]\<rparr>"
    with st show ?thesis
      by (intro exI [of _ "[ch]"]) (simp add: starts_def endPos_def)
  qed
qed

lemma attempt_Gated_emit:
  assumes "attempt cfg s = Gated m sk (t, se)"
  shows "remaining cfg s = contents se @ remaining cfg se" "contents se \<noteq> []"
    "endPos se = foldl advPos (endPos s) (contents se)" "t \<noteq> T_eof"
    "startPos se = advPos (endPos s) (hd (contents se))"
proof -
  from attempt_Gated [OF assms] obtain ch first cs where
    st: "starts cfg s ch first" and c: "consumed cfg first cs se" and t: "t \<noteq> T_eof" by blast
  from st c show "remaining cfg s = contents se @ remaining cfg se" "contents se \<noteq> []"
    "endPos se = foldl advPos (endPos s) (contents se)"
    "startPos se = advPos (endPos s) (hd (contents se))"
    by (simp_all add: starts_def consumed_def)
  show "t \<noteq> T_eof" by (rule t)
qed

text \<open>What a call of \<open>scan\<close> that returns a token has done: it has skipped a stretch \<open>sk\<close>
  of text, then taken exactly the token's contents; the position has moved over both.
  No text is skipped when every mask test succeeds.\<close>

lemma scan_Inr_all:
  "scan cfg s = (Inr t, s') \<Longrightarrow>
   (\<exists>sk. remaining cfg s = sk @ contents s' @ remaining cfg s' \<and>
           endPos s' = foldl advPos (endPos s) (sk @ contents s') \<and>
           (t \<noteq> T_eof \<longrightarrow>
              startPos s' = advPos (foldl advPos (endPos s) sk) (hd (contents s'))) \<and>
           ((\<forall>m \<in> {scanWhitespace, scanIdents, scanStrings, scanInts OR scanFloats,
                    scanComments}. mode cfg AND m \<noteq> 0) \<longrightarrow> sk = [])) \<and>
   currentToken s' = Some t \<and> (t = T_eof \<longleftrightarrow> contents s' = [])"
proof (induction "length (remaining cfg s)" arbitrary: s rule: less_induct)
  case less
  let ?G = "{scanWhitespace, scanIdents, scanStrings, scanInts OR scanFloats, scanComments}"
  show ?case
  proof (cases "attempt cfg s")
    case (Done r)
    with less.prems have a: "attempt cfg s = Done (Inr t, s')"
      by (simp add: scan_attempt resolve_def)
    show ?thesis
    proof (cases "t = T_eof")
      case True
      from attempt_eof [OF a [unfolded True]] True show ?thesis
        by (intro conjI exI [of _ "[]"]) simp_all
    next
      case False
      from attempt_token [OF a False] obtain ch first where
        "starts cfg s ch first" "s' = first\<lparr>currentToken := Some T_token\<rparr>" "t = T_token"
        by blast
      then show ?thesis
        by (intro conjI exI [of _ "[]"]) (simp_all add: starts_def endPos_def)
    qed
  next
    case (Gated m sk r)
    obtain t0 se where r: "r = (t0, se)" by (cases r)
    note g = Gated [unfolded r]
    show ?thesis
    proof (cases "mode cfg AND m = 0")
      case False
      with g less.prems have "t = t0" "s' = se\<lparr>currentToken := Some t0\<rparr>"
        by (auto simp: scan_attempt resolve_def returnToken_def)
      with attempt_Gated_emit [OF g] show ?thesis
        by (intro conjI exI [of _ "[]"]) (simp_all add: endPos_def)
    next
      case True
      with g less.prems have e: "scan cfg sk = (Inr t, s')"
        by (simp add: scan_attempt resolve_def)
      from attempt_Gated_skip [OF g] obtain ds where
        ds: "remaining cfg s = ds @ remaining cfg sk" "ds \<noteq> []"
        "endPos sk = foldl advPos (endPos s) ds" by blast
      then have "length (remaining cfg sk) < length (remaining cfg s)" by simp
      from less.hyps [OF this e] obtain sk' where
        sk': "remaining cfg sk = sk' @ contents s' @ remaining cfg s'"
        "endPos s' = foldl advPos (endPos sk) (sk' @ contents s')"
        "t \<noteq> T_eof \<longrightarrow> startPos s' = advPos (foldl advPos (endPos sk) sk') (hd (contents s'))"
        and rest: "currentToken s' = Some t" "t = T_eof \<longleftrightarrow> contents s' = []" by blast
      from attempt_Gated_mask [OF Gated] True have "\<not> (\<forall>m \<in> ?G. mode cfg AND m \<noteq> 0)"
        by blast
      with ds sk' rest show ?thesis
        by (intro conjI exI [of _ "ds @ sk'"]) simp_all
    qed
  qed
qed

lemma scan_Inr:
  assumes "scan cfg s = (Inr t, s')"
  shows "\<exists>sk. remaining cfg s = sk @ contents s' @ remaining cfg s' \<and>
           endPos s' = foldl advPos (endPos s) (sk @ contents s') \<and>
           (t \<noteq> T_eof \<longrightarrow>
              startPos s' = advPos (foldl advPos (endPos s) sk) (hd (contents s'))) \<and>
           ((\<forall>m \<in> {scanWhitespace, scanIdents, scanStrings, scanInts OR scanFloats,
                    scanComments}. mode cfg AND m \<noteq> 0) \<longrightarrow> sk = [])"
    and "currentToken s' = Some t" and "t = T_eof \<longleftrightarrow> contents s' = []"
  using scan_Inr_all [OF assms] by blast+

lemma scan_progress:
  assumes "scan cfg s = (Inr t, s')" "t \<noteq> T_eof"
  shows "length (remaining cfg s') < length (remaining cfg s)"
proof -
  from scan_Inr [OF assms(1)] assms(2) obtain sk where
    "remaining cfg s = sk @ contents s' @ remaining cfg s'" "contents s' \<noteq> []" by blast
  then show ?thesis by simp
qed

section \<open>The token stream\<close>

text \<open>The async iterator of the class: it yields the tokens of repeated \<open>scan\<close> calls up
  to and including \<open>eof\<close>. With each token the stream records what the caller can read
  at that moment: contents, \<open>startPos\<close> and \<open>endPos\<close>. A thrown error ends the stream.\<close>

datatype Emitted =
    Emit Token jsstring "int \<times> int" "int \<times> int"
  | Thrown ScanError

function tokens :: "Config \<Rightarrow> Scanner \<Rightarrow> Emitted list" where
  "tokens cfg s =
     (case scan cfg s of
        (Inl e, s') \<Rightarrow> [Thrown e]
      | (Inr t, s') \<Rightarrow>
          Emit t (contents s') (startPos s') (endPos s') #
          (if t = T_eof then [] else tokens cfg s'))"
  by pat_completeness auto
termination
proof (relation "measure (\<lambda>(cfg, s). length (remaining cfg s))", goal_cases)
  case 1
  show ?case by simp
next
  case (2 cfg s r s' t)
  then have "scan cfg s = (Inr t, s')" by simp
  from scan_progress [OF this 2(3)] show ?case by simp
qed

declare tokens.simps [simp del]

lemma scan_eof:
  "scan cfg s = (Inr T_eof, s') \<Longrightarrow>
   attempt cfg s' = Done (Inr T_eof, s') \<and> drained cfg s' \<and> bufPos s' = 0 \<and>
   contents s' = [] \<and> startPos s' = endPos s'"
proof (induction "length (remaining cfg s)" arbitrary: s rule: less_induct)
  case less
  show ?case
  proof (cases "attempt cfg s")
    case (Done r)
    with less.prems have a: "attempt cfg s = Done (Inr T_eof, s')"
      by (simp add: scan_attempt resolve_def)
    from attempt_eof [OF a] attempt_eof_fixed [OF a] show ?thesis by simp
  next
    case (Gated m sk r)
    obtain t0 se where r: "r = (t0, se)" by (cases r)
    note g = Gated [unfolded r]
    show ?thesis
    proof (cases "mode cfg AND m = 0")
      case False
      with g less.prems have "t0 = T_eof"
        by (auto simp: scan_attempt resolve_def returnToken_def)
      with attempt_Gated_emit(4) [OF g] show ?thesis by simp
    next
      case True
      with g less.prems have e: "scan cfg sk = (Inr T_eof, s')"
        by (simp add: scan_attempt resolve_def)
      from attempt_Gated_skip [OF g] have "length (remaining cfg sk) < length (remaining cfg s)"
        by auto
      from less.hyps [OF this e] show ?thesis .
    qed
  qed
qed

lemma scan_eof_again:
  assumes "scan cfg s = (Inr T_eof, s')"
  shows "scan cfg s' = (Inr T_eof, s')"
  using scan_eof [OF assms] by (simp add: scan_attempt resolve_def)

text \<open>On a drained cursor nothing is left of the text: the buffer is empty and the reader
  has answered \<open>null\<close>.\<close>

lemma drained_remaining:
  assumes "drained cfg s" "bufPos s = 0"
  shows "remaining cfg s = []"
proof -
  from assms(1) have "buffer s = []"
    and "defaultRead (reader s) (chunkBuffer cfg) (decoder cfg) = (None, reader s)"
    by (simp_all add: drained_def)
  with pending_None(1) [of "reader s" cfg "reader s"] show ?thesis
    by (simp add: remaining_def)
qed

section \<open>Repeated calls\<close>

text \<open>\<open>n\<close> calls of \<open>scan\<close> in a row, each recorded with what the caller reads after it:
  the result, the contents, \<open>startPos\<close> and \<open>endPos\<close>.\<close>

fun scanTimes ::
  "nat \<Rightarrow> Config \<Rightarrow> Scanner \<Rightarrow> ((ScanError + Token) \<times> jsstring \<times> (int \<times> int) \<times> (int \<times> int)) list"
where
  "scanTimes 0 cfg s = []"
| "scanTimes (Suc n) cfg s =
     (case scan cfg s of (r, s') \<Rightarrow>
        (r, contents s', startPos s', endPos s') # scanTimes n cfg s')"

text \<open>The text of a token stream, \<open>eof\<close> contributing the empty string.\<close>

fun emittedText :: "Emitted \<Rightarrow> jsstring" where
  "emittedText (Emit t c sp ep) = c"
| "emittedText (Thrown e) = []"

fun isThrown :: "Emitted \<Rightarrow> bool" where
  "isThrown (Thrown e) = True"
| "isThrown (Emit t c sp ep) = False"

definition allCategories :: "32 word set" where
  "allCategories =
     {scanWhitespace, scanIdents, scanInts, scanFloats, scanStrings, scanComments}"

lemma and_or_nonzero: "(x :: 32 word) AND a \<noteq> 0 \<Longrightarrow> x AND (a OR b) \<noteq> 0"
  by (simp add: bit.conj_disj_distrib or_eq_0_iff)

lemma allCategories_gates:
  assumes "\<forall>m \<in> allCategories. mode cfg AND m \<noteq> 0"
  shows "\<forall>m \<in> {scanWhitespace, scanIdents, scanStrings, scanInts OR scanFloats,
                scanComments}. mode cfg AND m \<noteq> 0"
  using assms and_or_nonzero [of "mode cfg" scanInts scanFloats]
  by (simp add: allCategories_def)

lemma tokens_text:
  "\<forall>m \<in> allCategories. mode cfg AND m \<noteq> 0 \<Longrightarrow>
   \<not> list_ex isThrown (tokens cfg s) \<Longrightarrow>
   concat (map emittedText (tokens cfg s)) = remaining cfg s"
proof (induction cfg s rule: tokens.induct)
  case (1 cfg s)
  obtain r s' where sc: "scan cfg s = (r, s')" by (cases "scan cfg s")
  show ?case
  proof (cases r)
    case (Inl e)
    with sc 1(3) show ?thesis by (subst (asm) tokens.simps) simp
  next
    case (Inr t)
    note sc' = sc [unfolded Inr]
    from scan_Inr(1) [OF sc'] allCategories_gates [OF 1(2)]
    have split: "remaining cfg s = contents s' @ remaining cfg s'" by auto
    show ?thesis
    proof (cases "t = T_eof")
      case True
      from scan_eof [OF sc' [unfolded True]] drained_remaining [of cfg s']
      have "remaining cfg s' = []" "contents s' = []" by simp_all
      with split sc' True show ?thesis by (subst tokens.simps) simp
    next
      case False
      from sc' False 1(3) have "\<not> list_ex isThrown (tokens cfg s')"
        by (subst (asm) tokens.simps) simp
      from 1(1) [OF sc [symmetric] Inr False 1(2) this]
      have "concat (map emittedText (tokens cfg s')) = remaining cfg s'" .
      with split sc' False show ?thesis by (subst tokens.simps) simp
    qed
  qed
qed

subsection \<open>What the reads deliver of a source\<close>

text \<open>Of a source of ASCII bytes, read with a chunk buffer that is not empty and decoded
  by the default decoder, the reads deliver the characters of the bytes.\<close>

lemma pending_ascii:
  "0 < chunkBuffer cfg \<Longrightarrow> decoder cfg = utf8Decode \<Longrightarrow> list_all (\<lambda>b. b \<le> 0x7F) bs \<Longrightarrow>
   pending cfg bs = map ucast bs"
proof (induction cfg bs rule: pending.induct)
  case (1 cfg r)
  show ?case
  proof (cases "r = []")
    case True
    then show ?thesis by (subst pending.simps) (simp add: defaultRead_def readerRead_def)
  next
    case False
    let ?n = "chunkBuffer cfg"
    from 1(4) have t: "list_all (\<lambda>b. b \<le> 0x7F) (take ?n r)"
      and d: "list_all (\<lambda>b. b \<le> 0x7F) (drop ?n r)"
      by (auto simp: list_all_iff dest: in_set_takeD in_set_dropD)
    from False 1(2,3) have rd: "defaultRead r ?n (decoder cfg) = (Some (utf8Decode (take ?n r)), drop ?n r)"
      by (simp add: defaultRead_def readerRead_def)
    from 1(1) [OF rd [symmetric] refl 1(2,3) d]
    have "pending cfg (drop ?n r) = map ucast (drop ?n r)" .
    with pending_Some [OF rd] utf8Decode_ascii [OF t]
    have "pending cfg r = map ucast (take ?n r) @ map ucast (drop ?n r)" by simp
    also have "\<dots> = map ucast r" by (simp flip: map_append)
    finally show ?thesis .
  qed
qed

lemma source_text_ascii:
  assumes "0 < chunkBuffer cfg" "decoder cfg = utf8Decode" "isAscii str"
  shows "pending cfg (StringReader str) = str"
proof -
  from assms(3) have b: "list_all (\<lambda>b. b \<le> 0x7F) (map ucast str :: byte list)"
    by (simp add: isAscii_def list_all_iff ascii_byte)
  from assms(3) have "map ucast (map ucast str :: byte list) = str"
    by (simp add: isAscii_def list_all_iff ascii_back map_idI)
  with pending_ascii [OF assms(1,2) b] StringReader_ascii [OF assms(3)] show ?thesis by simp
qed

text \<open>The mask with all six categories.\<close>

definition allTokens :: "32 word" where
  "allTokens = scanWhitespace OR scanIdents OR scanInts OR scanFloats OR scanStrings OR
     scanComments"

text \<open>C1, as the code has it. With all six categories enabled in the mask: when the
  token stream of a source runs to \<open>eof\<close> without an error, the contents of its tokens,
  concatenated in order, are the text that the reads delivered from the source. For a
  scanner with a chunk buffer of at least one byte and the default decoder, reading a
  string of ASCII characters, that is the string itself.\<close>

theorem lossless_tokenization:
  assumes "\<forall>m \<in> allCategories. mode cfg AND m \<noteq> 0"
    and "\<not> list_ex isThrown (tokens cfg (newScanner src))"
  shows "concat (map emittedText (tokens cfg (newScanner src))) = pending cfg src \<and>
         (0 < chunkBuffer cfg \<and> decoder cfg = utf8Decode \<and> isAscii str \<and>
          src = StringReader str \<longrightarrow>
            concat (map emittedText (tokens cfg (newScanner src))) = str)"
proof -
  from tokens_text [OF assms]
  have t: "concat (map emittedText (tokens cfg (newScanner src))) = pending cfg src"
    by (simp add: remaining_def newScanner_def)
  with source_text_ascii [of cfg str] show ?thesis by auto
qed

theorem lossless_tokenization_witness:
  "\<not> list_ex isThrown
       (tokens (newConfig (noInit\<lparr>init_mode := Some (maskNumber allTokens)\<rparr>))
          (newScanner (StringReader (js ''a+ 12'')))) \<and>
   isAscii (js ''a+ 12'') \<and>
   concat (map emittedText
       (tokens (newConfig (noInit\<lparr>init_mode := Some (maskNumber allTokens)\<rparr>))
          (newScanner (StringReader (js ''a+ 12'')))))
     = js ''a+ 12''"
proof -
  let ?C = "newConfig (noInit\<lparr>init_mode := Some (maskNumber allTokens)\<rparr>)"
  have h1: "0 < chunkBuffer ?C" by code_simp
  have h2: "\<forall>m \<in> allCategories. mode ?C AND m \<noteq> 0" by code_simp
  have h3: "\<not> list_ex isThrown (tokens ?C (newScanner (StringReader (js ''a+ 12''))))"
    by code_simp
  have h4: "decoder ?C = utf8Decode" by (simp add: newConfig_def noInit_def orElse_def)
  have h5: "isAscii (js ''a+ 12'')" by code_simp
  from lossless_tokenization [OF h2 h3, of "js ''a+ 12''"]
  have "0 < chunkBuffer ?C \<and> decoder ?C = utf8Decode \<and> isAscii (js ''a+ 12'') \<and>
        StringReader (js ''a+ 12'') = StringReader (js ''a+ 12'') \<longrightarrow>
        concat (map emittedText (tokens ?C (newScanner (StringReader (js ''a+ 12'')))))
          = js ''a+ 12''"
    by (rule conjunct2)
  with h1 h4 h5
  have "concat (map emittedText (tokens ?C (newScanner (StringReader (js ''a+ 12'')))))
          = js ''a+ 12''" by blast
  with h3 h5 show ?thesis by blast
qed

text \<open>C1 as the spec states it fails. With an empty chunk buffer every read is of no
  bytes, which \<open>defaultRead\<close> takes for the end of the input: the stream of \<open>abc\<close> is \<open>eof\<close>
  alone. And the decoder drops a byte order mark: of the two characters U+FEFF \<open>a\<close> the
  stream has only the \<open>a\<close>.\<close>

theorem lossless_counterexample:
  "mode (newConfig (noInit\<lparr>init_mode := Some (maskNumber allTokens),
                           init_chunkBuffer := Some 0\<rparr>)) = allTokens \<and>
   tokens (newConfig (noInit\<lparr>init_mode := Some (maskNumber allTokens),
                            init_chunkBuffer := Some 0\<rparr>))
     (newScanner (StringReader (js ''abc''))) = [Emit T_eof [] (1, 0) (1, 0)] \<and>
   concat (map emittedText
     (tokens (newConfig (noInit\<lparr>init_mode := Some (maskNumber allTokens),
                               init_chunkBuffer := Some 0\<rparr>))
        (newScanner (StringReader (js ''abc''))))) \<noteq> js ''abc'' \<and>
   mode (newConfig (noInit\<lparr>init_mode := Some (maskNumber allTokens)\<rparr>)) = allTokens \<and>
   tokens (newConfig (noInit\<lparr>init_mode := Some (maskNumber allTokens)\<rparr>))
     (newScanner (StringReader [0xFEFF, cu CHR ''a''])) =
     [Emit T_identifier (js ''a'') (1, 1) (1, 1), Emit T_eof [] (1, 1) (1, 1)] \<and>
   concat (map emittedText
     (tokens (newConfig (noInit\<lparr>init_mode := Some (maskNumber allTokens)\<rparr>))
        (newScanner (StringReader [0xFEFF, cu CHR ''a''])))) \<noteq> [0xFEFF, cu CHR ''a'']"
  by code_simp

text \<open>Each chunk is decoded on its own: a character whose bytes two reads deliver in
  parts comes out as replacement characters. Here U+00E9, two bytes in UTF-8, is read
  with a chunk buffer of one byte, and then with the default one.\<close>

lemma split_sequence_is_replaced:
  "StringReader [0xE9] = [0xC3, 0xA9] \<and>
   tokens (newConfig (noInit\<lparr>init_mode := Some (maskNumber allTokens),
                            init_chunkBuffer := Some 1\<rparr>))
     (newScanner (StringReader [0xE9])) =
     [Emit T_token [0xFFFD] (1, 1) (1, 1), Emit T_token [0xFFFD] (1, 2) (1, 2),
      Emit T_eof [] (1, 2) (1, 2)] \<and>
   tokens (newConfig (noInit\<lparr>init_mode := Some (maskNumber allTokens)\<rparr>))
     (newScanner (StringReader [0xE9])) =
     [Emit T_token [0xE9] (1, 1) (1, 1), Emit T_eof [] (1, 1) (1, 1)]"
  by code_simp


section \<open>End of input\<close>

lemma scanTimes_eof:
  assumes "scan cfg s = (Inr T_eof, s)" "contents s = []" "startPos s = endPos s"
  shows "scanTimes n cfg s = replicate n (Inr T_eof, [], endPos s, endPos s)"
  by (induction n) (simp_all add: assms)

lemma scan_empty_source:
  "scan cfg (newScanner []) =
     (Inr T_eof, (newScanner [])\<lparr>startPos := (1, 0), currentToken := Some T_eof\<rparr>)"
proof -
  have "drained cfg (newScanner [])"
    by (simp add: drained_def newScanner_def defaultRead_def readerRead_def)
  from attempt_drained [OF this] show ?thesis
    by (simp add: scan_attempt resolve_def newScanner_def)
qed

text \<open>C2. Once \<open>scan\<close> has returned \<open>eof\<close> (a call that may itself have moved the position,
  over skipped tokens), every further call returns \<open>eof\<close> again with empty contents and
  with \<open>startPos\<close> and \<open>endPos\<close> where that first \<open>eof\<close> left them. On the empty source five
  calls in a row give \<open>eof\<close> with \<open>startPos = endPos = (1, 0)\<close>.\<close>

theorem eof_idempotent:
  "(fst (scan cfg s) = Inr T_eof \<longrightarrow>
      contents (snd (scan cfg s)) = [] \<and>
      scanTimes n cfg (snd (scan cfg s)) =
        replicate n (Inr T_eof, [], endPos (snd (scan cfg s)), endPos (snd (scan cfg s)))) \<and>
   scanTimes 5 cfg (newScanner []) = replicate 5 (Inr T_eof, [], (1, 0), (1, 0))"
proof (intro conjI impI)
  assume "fst (scan cfg s) = Inr T_eof"
  then have sc: "scan cfg s = (Inr T_eof, snd (scan cfg s))" by (simp add: prod_eq_iff)
  from scan_eof [OF sc] show "contents (snd (scan cfg s)) = []" by simp
  from scan_eof [OF sc] scan_eof_again [OF sc]
  show "scanTimes n cfg (snd (scan cfg s)) =
        replicate n (Inr T_eof, [], endPos (snd (scan cfg s)), endPos (snd (scan cfg s)))"
    by (intro scanTimes_eof) simp_all
next
  let ?s = "(newScanner [])\<lparr>startPos := (1, 0), currentToken := Some T_eof\<rparr>"
  have sc: "scan cfg (newScanner []) = (Inr T_eof, ?s)" by (rule scan_empty_source)
  have "scanTimes 4 cfg ?s = replicate 4 (Inr T_eof, [], endPos ?s, endPos ?s)"
    using scan_eof_again [OF sc] by (intro scanTimes_eof) (simp_all add: newScanner_def endPos_def)
  moreover have "endPos ?s = (1, 0)" by (simp add: newScanner_def endPos_def)
  moreover have "contents ?s = []" "startPos ?s = (1, 0)" by (simp_all add: newScanner_def)
  moreover have "scanTimes 5 cfg (newScanner []) =
      (Inr T_eof, contents ?s, startPos ?s, endPos ?s) # scanTimes 4 cfg ?s"
    using sc by (simp add: eval_nat_numeral)
  ultimately show "scanTimes 5 cfg (newScanner []) = replicate 5 (Inr T_eof, [], (1, 0), (1, 0))"
    by (simp add: eval_nat_numeral)
qed

theorem eof_idempotent_witness:
  "fst (scan (newConfig (noInit\<lparr>init_mode := Some (maskNumber scanIdents)\<rparr>))
          (newScanner (StringReader (js ''+'')))) = Inr T_eof \<and>
   endPos (snd (scan (newConfig (noInit\<lparr>init_mode := Some (maskNumber scanIdents)\<rparr>))
                  (newScanner (StringReader (js ''+''))))) = (1, 1) \<and>
   scanTimes 3 (newConfig (noInit\<lparr>init_mode := Some (maskNumber scanIdents)\<rparr>))
       (snd (scan (newConfig (noInit\<lparr>init_mode := Some (maskNumber scanIdents)\<rparr>))
               (newScanner (StringReader (js ''+''))))) =
     [(Inr T_eof, [], (1, 1), (1, 1)), (Inr T_eof, [], (1, 1), (1, 1)),
      (Inr T_eof, [], (1, 1), (1, 1))]"
proof -
  let ?C = "newConfig (noInit\<lparr>init_mode := Some (maskNumber scanIdents)\<rparr>)"
  have h: "fst (scan ?C (newScanner (StringReader (js ''+'')))) = Inr T_eof" by code_simp
  have e: "endPos (snd (scan ?C (newScanner (StringReader (js ''+''))))) = (1, 1)" by code_simp
  have r: "replicate 3 (Inr T_eof :: ScanError + Token, [] :: jsstring, (1, 1) :: int \<times> int,
                        (1, 1) :: int \<times> int) =
     [(Inr T_eof, [], (1, 1), (1, 1)), (Inr T_eof, [], (1, 1), (1, 1)),
      (Inr T_eof, [], (1, 1), (1, 1))]" by (simp add: eval_nat_numeral)
  from eof_idempotent [of ?C "newScanner (StringReader (js ''+''))" 3] h have
    "scanTimes 3 ?C (snd (scan ?C (newScanner (StringReader (js ''+''))))) =
       replicate 3 (Inr T_eof, [], endPos (snd (scan ?C (newScanner (StringReader (js ''+''))))),
         endPos (snd (scan ?C (newScanner (StringReader (js ''+''))))))" by blast
  with h e r show ?thesis by simp
qed

section \<open>The public fields after scan\<close>

text \<open>C10. After a call of \<open>scan\<close> that returns a token, \<open>currentToken\<close> is that token; and
  unless it is \<open>eof\<close> the contents are not empty and are exactly the text the call
  consumed for the token: what was ahead of the cursor before the call is some skipped
  text \<open>sk\<close>, then the contents, then what is ahead afterwards. \<open>startPos\<close>, which the code
  sets right after the token's first character is consumed, is the position reached
  after \<open>sk\<close> and the first character of the contents.\<close>

theorem scan_sets_public_fields:
  "fst (scan cfg s) = Inr t \<Longrightarrow>
   currentToken (snd (scan cfg s)) = Some t \<and>
   (t \<noteq> T_eof \<longrightarrow>
      contents (snd (scan cfg s)) \<noteq> [] \<and>
      (\<exists>sk. remaining cfg s = sk @ contents (snd (scan cfg s)) @ remaining cfg (snd (scan cfg s)) \<and>
            startPos (snd (scan cfg s)) =
              advPos (foldl advPos (endPos s) sk) (hd (contents (snd (scan cfg s))))))"
proof -
  assume "fst (scan cfg s) = Inr t"
  then have sc: "scan cfg s = (Inr t, snd (scan cfg s))" by (simp add: prod_eq_iff)
  from scan_Inr [OF sc] show ?thesis by blast
qed

theorem scan_sets_public_fields_witness:
  "fst (scan (newConfig noInit) (newScanner (StringReader (js ''foo;'')))) = Inr T_identifier \<and>
   currentToken (snd (scan (newConfig noInit) (newScanner (StringReader (js ''foo;'')))))
     = Some T_identifier \<and>
   contents (snd (scan (newConfig noInit) (newScanner (StringReader (js ''foo;''))))) \<noteq> []"
proof -
  have h: "fst (scan (newConfig noInit) (newScanner (StringReader (js ''foo;'')))) = Inr T_identifier"
    by code_simp
  from scan_sets_public_fields [OF h] h show ?thesis by simp
qed

section \<open>Positions\<close>

text \<open>The order on positions: by line, then by column.\<close>

definition posLe :: "int \<times> int \<Rightarrow> int \<times> int \<Rightarrow> bool" where
  "posLe p q \<longleftrightarrow> fst p < fst q \<or> (fst p = fst q \<and> snd p \<le> snd q)"

lemma posLe_refl: "posLe p p"
  by (simp add: posLe_def)

lemma posLe_trans: "posLe p q \<Longrightarrow> posLe q r \<Longrightarrow> posLe p r"
  by (auto simp: posLe_def)

lemma posLe_advPos: "posLe p (advPos p c)"
  by (simp add: posLe_def advPos_def)

lemma posLe_foldl: "posLe p (foldl advPos p cs)"
proof (induction cs arbitrary: p)
  case Nil
  show ?case by (simp add: posLe_refl)
next
  case (Cons c cs)
  from posLe_advPos [of p c] Cons.IH [of "advPos p c"]
  show ?case by (auto intro: posLe_trans)
qed

lemma commentLoop_error:
  "fst (commentLoop cfg b i s) = Some e \<Longrightarrow>
   e = CommentNotTerminated \<and>
   (\<exists>cs s0. consumed cfg s cs s0 \<and>
      endPos (snd (commentLoop cfg b i s)) = (fst (endPos s0), snd (endPos s0) + 1))"
proof (induction cfg b i s rule: commentLoop.induct)
  case (1 cfg blockComment i s)
  obtain ch s1 where p: "peek cfg s = (ch, s1)" by (cases "peek cfg s")
  show ?case
  proof (cases "\<not> blockComment \<and> (case ch of None \<Rightarrow> True | Some c \<Rightarrow> \<not> isComment cfg c i)")
    case True
    with p have "fst (commentLoop cfg blockComment i s) = None"
      by (subst commentLoop.simps) auto
    with 1(3) show ?thesis by simp
  next
    case False
    define s2 where "s2 = appendNext cfg s1"
    show ?thesis
    proof (cases ch)
      case None
      with False have bc: "blockComment" by auto
      with p None False have r: "commentLoop cfg blockComment i s = (Some CommentNotTerminated, s2)"
        by (subst commentLoop.simps) (simp add: Let_def s2_def)
      from p have s1: "s1 = snd (peek cfg s)" by simp
      have "next cfg s1 = next cfg s" unfolding s1 by (rule next_after_peek)
      moreover have "fst (next cfg s) = None" using p None by (simp add: next_def)
      ultimately obtain s' where n: "next cfg s1 = (None, s')" by (cases "next cfg s") auto
      have f: "line s1 = line s" "column s1 = column s" unfolding s1 by simp_all
      from next_fields(4,5) [OF n] f have "endPos s2 = (fst (endPos s), snd (endPos s) + 1)"
        by (simp add: s2_def appendNext_def n endPos_def)
      with r 1(3) consumed_refl [of cfg s] show ?thesis by auto
    next
      case (Some c)
      have c2: "consumed cfg s [c] s2"
        unfolding s2_def by (rule consumed_appendNext [OF p [unfolded Some]])
      show ?thesis
      proof (cases blockComment)
        case nb: False
        with p False Some
        have e: "commentLoop cfg blockComment i s = commentLoop cfg blockComment (i + 1) s2"
          by (subst commentLoop.simps) (simp add: Let_def s2_def)
        with 1(3) have "fst (commentLoop cfg blockComment (i + 1) s2) = Some e" by simp
        from 1(2) [OF p [symmetric] False s2_def nb this] obtain cs s0 where
          "e = CommentNotTerminated" "consumed cfg s2 cs s0"
          "endPos (snd (commentLoop cfg blockComment (i + 1) s2))
             = (fst (endPos s0), snd (endPos s0) + 1)" by blast
        with consumed_trans [OF c2] e show ?thesis by auto
      next
        case bc: True
        obtain pk s3 where p3: "peek cfg s2 = (pk, s3)" by (cases "peek cfg s2")
        from c2 consumed_peek [OF p3] have c3: "consumed cfg s ([c] @ []) s3"
          by (rule consumed_trans)
        show ?thesis
        proof (cases "case pk of None \<Rightarrow> False
              | Some p \<Rightarrow> isBlockCommentClose cfg c 0 \<and> isBlockCommentClose cfg p 1")
          case True
          with p False Some bc p3
          have "commentLoop cfg blockComment i s = (None, appendNext cfg s3)"
            by (subst commentLoop.simps) (simp add: Let_def s2_def)
          with 1(3) show ?thesis by simp
        next
          case nc: False
          with p False Some bc p3
          have e: "commentLoop cfg blockComment i s = commentLoop cfg blockComment (i + 1) s3"
            by (subst commentLoop.simps) (simp add: Let_def s2_def)
          with 1(3) have "fst (commentLoop cfg blockComment (i + 1) s3) = Some e" by simp
          from 1(1) [OF p [symmetric] False s2_def bc Some p3 [symmetric] nc this]
          obtain cs s0 where
            "e = CommentNotTerminated" "consumed cfg s3 cs s0"
            "endPos (snd (commentLoop cfg blockComment (i + 1) s3))
               = (fst (endPos s0), snd (endPos s0) + 1)" by blast
          with consumed_trans [OF c3] e show ?thesis by auto
        qed
      qed
    qed
  qed
qed

lemma stringLoop_error: "fst (stringLoop cfg delim s) = Some e \<Longrightarrow> e = LiteralNotTerminated"
proof (induction cfg delim s rule: stringLoop.induct)
  case (1 cfg delim s)
  obtain ch s1 where p: "peek cfg s = (ch, s1)" by (cases "peek cfg s")
  from 1(2) p 1(1) [OF p [symmetric]] show ?case
    by (subst (asm) stringLoop.simps) (auto simp: Let_def split: option.splits if_splits)
qed

lemma attempt_Some:
  assumes "next cfg s = (Some ch, s1)" "peek cfg s1 = (pk, s2)"
  shows "attempt cfg s =
     (let s3 = s2\<lparr>startPos := (line s2, column s2)\<rparr>; first = s3\<lparr>contents := [ch]\<rparr> in
      if isWhitespace cfg ch then
        Gated scanWhitespace (whitespaceLoop cfg first) (T_whitespace, whitespaceLoop cfg first)
      else if isIdent cfg ch 0 then
        Gated scanIdents (identLoop cfg 1 first)
          (if isKeyword cfg (contents (identLoop cfg 1 first)) then T_keyword else T_identifier,
           identLoop cfg 1 first)
      else if isStringDelimiter cfg ch then
        (case stringLoop cfg ch first of
           (Some e, s4) \<Rightarrow> Done (Inl e, s4)
         | (None, s4) \<Rightarrow> Gated scanStrings s4 (T_string, s4))
      else if isDecimal cfg ch \<or> isSign cfg ch \<or>
              (ch = cu CHR ''.'' \<and> (case pk of None \<Rightarrow> False | Some p \<Rightarrow> isDecimal cfg p))
      then Gated (scanInts OR scanFloats) s3 (scanNumber cfg ch s3)
      else if isComment cfg ch 0 \<or> isBlockCommentOpen cfg ch 0 then
        (case commentLoop cfg (case pk of None \<Rightarrow> False
                | Some p \<Rightarrow> isBlockCommentOpen cfg ch 0 \<and> isBlockCommentOpen cfg p 1) 1 first of
           (Some e, s4) \<Rightarrow> Done (Inl e, s4)
         | (None, s4) \<Rightarrow> Gated scanComments s4 (T_comment, s4))
      else Done (returnToken T_token first))"
  by (simp add: attempt_def assms Let_def)

text \<open>A pass that throws leaves the position no earlier than it found it. (An
  unterminated comment has made one more \<open>next\<close> call, at the end of the source.)\<close>

lemma attempt_error:
  assumes "attempt cfg s = Done (Inl e, s')"
  shows "posLe (endPos s) (endPos s')"
proof -
  obtain ch0 s1 where n: "next cfg s = (ch0, s1)" by (cases "next cfg s")
  obtain pk s2 where p: "peek cfg s1 = (pk, s2)" by (cases "peek cfg s1")
  from assms n p obtain ch where ch: "ch0 = Some ch"
    by (cases ch0) (auto simp: attempt_def Let_def)
  define first where "first = s2\<lparr>startPos := (line s2, column s2), contents := [ch]\<rparr>"
  define b where "b = (case pk of None \<Rightarrow> False
                | Some p \<Rightarrow> isBlockCommentOpen cfg ch 0 \<and> isBlockCommentOpen cfg p 1)"
  have st: "starts cfg s ch first"
    unfolding first_def using n p unfolding ch by (rule starts_intro)
  then have p1: "posLe (endPos s) (endPos first)"
    by (simp add: starts_def posLe_advPos)
  from assms attempt_Some [OF n [unfolded ch] p]
  have "(stringLoop cfg ch first = (Some e, s')) \<or> (commentLoop cfg b 1 first = (Some e, s'))"
    by (auto simp: Let_def first_def b_def returnToken_def split: if_splits prod.splits option.splits)
  then have "posLe (endPos first) (endPos s')"
  proof
    assume "stringLoop cfg ch first = (Some e, s')"
    then have "s' = snd (stringLoop cfg ch first)" by simp
    with stringLoop_consumed [of cfg first ch] obtain cs where "consumed cfg first cs s'" by auto
    then show ?thesis by (simp add: consumed_def posLe_foldl)
  next
    assume c: "commentLoop cfg b 1 first = (Some e, s')"
    then have "fst (commentLoop cfg b 1 first) = Some e" by simp
    from commentLoop_error [OF this] c obtain cs s0 where
      "consumed cfg first cs s0" "endPos s' = (fst (endPos s0), snd (endPos s0) + 1)" by auto
    then have e0: "endPos s0 = foldl advPos (endPos first) cs"
      and e1: "endPos s' = (fst (endPos s0), snd (endPos s0) + 1)"
      by (simp_all add: consumed_def)
    have "posLe (endPos first) (endPos s0)" unfolding e0 by (rule posLe_foldl)
    moreover have "posLe (endPos s0) (endPos s')" unfolding e1 by (simp add: posLe_def)
    ultimately show ?thesis by (rule posLe_trans)
  qed
  with p1 show ?thesis by (rule posLe_trans)
qed

lemma scan_posLe_Inl:
  "scan cfg s = (Inl e, s') \<Longrightarrow> posLe (endPos s) (endPos s')"
proof (induction "length (remaining cfg s)" arbitrary: s rule: less_induct)
  case less
  show ?case
  proof (cases "attempt cfg s")
    case (Done r)
    with less.prems have "attempt cfg s = Done (Inl e, s')"
      by (simp add: scan_attempt resolve_def)
    then show ?thesis by (rule attempt_error)
  next
    case (Gated m sk r)
    obtain t0 se where r: "r = (t0, se)" by (cases r)
    note g = Gated [unfolded r]
    show ?thesis
    proof (cases "mode cfg AND m = 0")
      case False
      with g less.prems show ?thesis
        by (simp add: scan_attempt resolve_def returnToken_def)
    next
      case True
      with g less.prems have e: "scan cfg sk = (Inl e, s')"
        by (simp add: scan_attempt resolve_def)
      from attempt_Gated_skip [OF g] obtain ds where
        ds: "remaining cfg s = ds @ remaining cfg sk" "ds \<noteq> []"
        "endPos sk = foldl advPos (endPos s) ds" by blast
      then have "length (remaining cfg sk) < length (remaining cfg s)" by simp
      from less.hyps [OF this e] have "posLe (endPos sk) (endPos s')" .
      moreover from ds(3) have "posLe (endPos s) (endPos sk)" by (simp add: posLe_foldl)
      ultimately show ?thesis by (rule posLe_trans [rotated])
    qed
  qed
qed

lemma next_position:
  assumes "fst (next cfg s) = Some c"
  shows "endPos (snd (next cfg s)) = advPos (endPos s) c"
proof -
  from assms have n: "next cfg s = (Some c, snd (next cfg s))" by (simp add: prod_eq_iff)
  from next_fields(4,5) [OF n] show ?thesis by (simp add: endPos_def advPos_def)
qed

text \<open>C4. The end position never decreases over a call of \<open>scan\<close>, whether it returns or
  throws. \<open>next\<close> moves it by the rule of \<open>advPos\<close> for each character it consumes: a
  newline gives the next line at column 0, any other character the next column. A call
  that returns leaves the position exactly where the characters it consumed lead; the
  read past the end of the source that ends in \<open>eof\<close> adds nothing, and a further call
  after \<open>eof\<close> leaves the position unchanged.\<close>

theorem position_monotone:
  "posLe (endPos s) (endPos (snd (scan cfg s))) \<and>
   advPos (l, c) ch = (if ch = cu CHR 0x0A then (l + 1, 0) else (l, c + 1)) \<and>
   (fst (next cfg s) = Some ch \<longrightarrow> endPos (snd (next cfg s)) = advPos (endPos s) ch) \<and>
   (fst (scan cfg s) = Inr t \<longrightarrow>
      (\<exists>cs. remaining cfg s = cs @ remaining cfg (snd (scan cfg s)) \<and>
            endPos (snd (scan cfg s)) = foldl advPos (endPos s) cs)) \<and>
   (fst (scan cfg s) = Inr T_eof \<longrightarrow>
      endPos (snd (scan cfg (snd (scan cfg s)))) = endPos (snd (scan cfg s)))"
proof (intro conjI impI)
  show "posLe (endPos s) (endPos (snd (scan cfg s)))"
  proof (cases "fst (scan cfg s)")
    case (Inl e)
    then have "scan cfg s = (Inl e, snd (scan cfg s))" by (simp add: prod_eq_iff)
    then show ?thesis by (rule scan_posLe_Inl)
  next
    case (Inr t)
    then have "scan cfg s = (Inr t, snd (scan cfg s))" by (simp add: prod_eq_iff)
    from scan_Inr(1) [OF this] obtain sk where
      "endPos (snd (scan cfg s)) = foldl advPos (endPos s) (sk @ contents (snd (scan cfg s)))"
      by blast
    then show ?thesis by (simp only: posLe_foldl)
  qed
next
  show "advPos (l, c) ch = (if ch = cu CHR 0x0A then (l + 1, 0) else (l, c + 1))"
    by (simp add: advPos_def)
next
  assume "fst (next cfg s) = Some ch"
  then show "endPos (snd (next cfg s)) = advPos (endPos s) ch" by (rule next_position)
next
  assume "fst (scan cfg s) = Inr t"
  then have "scan cfg s = (Inr t, snd (scan cfg s))" by (simp add: prod_eq_iff)
  from scan_Inr(1) [OF this] obtain sk where
    "remaining cfg s = (sk @ contents (snd (scan cfg s))) @ remaining cfg (snd (scan cfg s))"
    "endPos (snd (scan cfg s)) = foldl advPos (endPos s) (sk @ contents (snd (scan cfg s)))"
    by auto
  then show "\<exists>cs. remaining cfg s = cs @ remaining cfg (snd (scan cfg s)) \<and>
            endPos (snd (scan cfg s)) = foldl advPos (endPos s) cs" by blast
next
  assume "fst (scan cfg s) = Inr T_eof"
  then have "scan cfg s = (Inr T_eof, snd (scan cfg s))" by (simp add: prod_eq_iff)
  from scan_eof_again [OF this]
  show "endPos (snd (scan cfg (snd (scan cfg s)))) = endPos (snd (scan cfg s))" by simp
qed

theorem position_monotone_witness:
  "fst (next (newConfig noInit) (newScanner (StringReader [cu CHR 0x0A, cu CHR ''x''])))
     = Some (cu CHR 0x0A) \<and>
   endPos (snd (next (newConfig noInit) (newScanner (StringReader [cu CHR 0x0A, cu CHR ''x'']))))
     = (2, 0) \<and>
   posLe (1, 0)
     (endPos (snd (scan (newConfig noInit)
                     (newScanner (StringReader [cu CHR 0x0A, cu CHR ''x''])))))"
proof -
  let ?C = "newConfig noInit" and ?S = "newScanner (StringReader [cu CHR 0x0A, cu CHR ''x''])"
  have h: "fst (next ?C ?S) = Some (cu CHR 0x0A)" by code_simp
  have e: "endPos ?S = (1, 0)" by (simp add: endPos_def newScanner_def)
  from position_monotone [of ?S ?C 1 0 "cu CHR 0x0A" T_eof] h e show ?thesis by simp
qed

section \<open>Reading known text\<close>

text \<open>\<open>peek\<close> returns the first character of the remaining text, and \<open>null\<close> only when
  nothing remains.\<close>

lemma js_simps [simp]: "js [] = []" "js (c # cs) = cu c # js cs"
  by (simp_all add: js_def)

lemma peek_head:
  "fst (peek cfg s) = (case remaining cfg s of [] \<Rightarrow> None | c # r \<Rightarrow> Some c)"
proof (cases "fst (peek cfg s)")
  case None
  then have p: "peek cfg s = (None, snd (peek cfg s))" by (simp add: prod_eq_iff)
  from peek_None_drained [OF p] drained_remaining [of cfg "snd (peek cfg s)"]
  have "remaining cfg s = []" by simp
  with None show ?thesis by simp
next
  case (Some c)
  then have p: "peek cfg s = (Some c, snd (peek cfg s))" by (simp add: prod_eq_iff)
  from peek_Some [OF p] Some show ?thesis by simp
qed


lemma peek_Nil:
  assumes "remaining cfg s = []"
  obtains s1 where "peek cfg s = (None, s1)"
  using peek_head [of cfg s] assms by (cases "peek cfg s") simp

lemma next_Cons:
  assumes "remaining cfg s = c # r"
  obtains s1 where "next cfg s = (Some c, s1)"
  using peek_head [of cfg s] assms
  by (cases "next cfg s") (simp add: next_def split: prod.splits)




section \<open>Numeric literals with the default predicates\<close>

text \<open>A scanner with the default predicates and decoder, mask \<open>m\<close> and a chunk buffer of
  \<open>n\<close> bytes.\<close>

definition withDefaults :: "32 word \<Rightarrow> nat \<Rightarrow> Config" where
  "withDefaults m n = (newConfig noInit)\<lparr>mode := m, chunkBuffer := n\<rparr>"

lemma withDefaults_simps [simp]:
  "mode (withDefaults m n) = m" "chunkBuffer (withDefaults m n) = n"
  "decoder (withDefaults m n) = utf8Decode"
  "isWhitespace (withDefaults m n) = default_isWhitespace"
  "isIdent (withDefaults m n) = default_isIdent"
  "isKeyword (withDefaults m n) = default_isKeyword"
  "isStringDelimiter (withDefaults m n) = default_isStringDelimiter"
  "isDecimal (withDefaults m n) = default_isDecimal"
  "isSign (withDefaults m n) = default_isSign"
  "isHex (withDefaults m n) = default_isHex"
  "isOctal (withDefaults m n) = default_isOctal"
  "isBinary (withDefaults m n) = default_isBinary"
  "isENotation (withDefaults m n) = default_isENotation"
  "isComment (withDefaults m n) = default_isComment"
  "isBlockCommentOpen (withDefaults m n) = default_isBlockCommentOpen"
  "isBlockCommentClose (withDefaults m n) = default_isBlockCommentClose"
  by (simp_all add: withDefaults_def newConfig_def noInit_def orElse_def)


text \<open>The numeric branch of \<open>scan\<close>, entered on a digit or a sign with ints or floats
  enabled.\<close>

lemma scan_numeric_start:
  assumes "mode cfg AND (scanInts OR scanFloats) \<noteq> 0"
    and "remaining cfg s = c # r"
    and "\<not> isWhitespace cfg c" "\<not> isIdent cfg c 0" "\<not> isStringDelimiter cfg c"
    and "isDecimal cfg c \<or> isSign cfg c"
  obtains s3 where "remaining cfg s3 = r"
    "scan cfg s = (case scanNumber cfg c s3 of (t, s4) \<Rightarrow> returnToken t s4)"
proof -
  from next_Cons [OF assms(2)] obtain s1 where n: "next cfg s = (Some c, s1)" .
  obtain pk s2 where p: "peek cfg s1 = (pk, s2)" by (cases "peek cfg s1")
  define s3 where "s3 = s2\<lparr>startPos := (line s2, column s2)\<rparr>"
  from p have "s2 = snd (peek cfg s1)" by simp
  then have "remaining cfg s2 = remaining cfg s1" by simp
  with next_Some [OF n] assms(2) have r3: "remaining cfg s3 = r" by (simp add: s3_def)
  from attempt_Some [OF n p] assms(3-6)
  have "attempt cfg s = Gated (scanInts OR scanFloats) s3 (scanNumber cfg c s3)"
    by (auto simp: Let_def s3_def)
  with assms(1) have "scan cfg s = (case scanNumber cfg c s3 of (t, s4) \<Rightarrow> returnToken t s4)"
    by (simp add: scan_attempt resolve_def split: prod.splits)
  with r3 that show ?thesis by blast
qed

text \<open>No exponent follows: the test of the e-notation marker fails.\<close>

lemma eNotation_none:
  assumes "remaining cfg s = [] \<or> \<not> isENotation cfg (hd (remaining cfg s)) \<or>
           mode cfg AND scanFloats = 0"
  shows "fst (eNotation cfg f s) = f" "consumed cfg s [] (snd (eNotation cfg f s))"
proof -
  obtain ch s1 where p: "peek cfg s = (ch, s1)" by (cases "peek cfg s")
  from peek_head [of cfg s] p assms
  have "ch = None \<or> (\<exists>c. ch = Some c \<and> \<not> (isENotation cfg c \<and> mode cfg AND scanFloats \<noteq> 0))"
    by (cases "remaining cfg s") auto
  then have e: "eNotation cfg f s = (f, s1)"
    using p by (auto simp: eNotation_def)
  show "fst (eNotation cfg f s) = f" by (simp add: e)
  show "consumed cfg s [] (snd (eNotation cfg f s))" using consumed_peek [OF p] by (simp add: e)
qed




lemma scanNumber_parts:
  assumes "r1 = (if ch \<noteq> cu CHR ''.'' then integerPart cfg NoCheck (Suc 0) (s\<lparr>contents := [ch]\<rparr>)
                 else (True, s\<lparr>contents := [ch]\<rparr>))"
    and "s2 = (if fst r1 then decimalRun cfg (snd r1) else snd r1)"
    and "r3 = eNotation cfg (fst r1) s2"
  shows "scanNumber cfg ch s =
     (if (case contents (snd r3) of [x] \<Rightarrow> isSign cfg x | _ \<Rightarrow> False) then T_token
      else if fst r3 then T_float else T_int, snd r3)"
  unfolding assms by (simp add: scanNumber_def Let_def split: prod.splits)






text \<open>A character that the numeric sub-machine takes when it comes right after the first
  character of a literal: a \<open>.\<close>, a base marker or digit accepted at index 1, or an
  e-notation marker.\<close>

definition extendsNumber :: "jschar \<Rightarrow> bool" where
  "extendsNumber c \<longleftrightarrow>
     c = cu CHR ''.'' \<or> default_isHex c 1 \<or> default_isOctal c 1 \<or> default_isBinary c 1 \<or>
     default_isDecimal c \<or> default_isENotation c"

lemma sign_facts:
  assumes "default_isSign sg"
  shows "sg \<noteq> cu CHR ''.''" "\<not> default_isWhitespace sg" "\<not> default_isIdent sg 0"
    "\<not> default_isStringDelimiter sg"
  using assms
  by (auto simp: default_isSign_def default_isWhitespace_def default_isIdent_def
      default_isStringDelimiter_def cu_def)

lemma scanNumber_lone_sign:
  assumes sg: "default_isSign sg"
    and r: "r = [] \<or> \<not> extendsNumber (hd r)"
    and rem: "remaining (withDefaults m n) s3 = r"
  shows "fst (scanNumber (withDefaults m n) sg s3) = T_token"
    and "contents (snd (scanNumber (withDefaults m n) sg s3)) = [sg]"
    and "remaining (withDefaults m n) (snd (scanNumber (withDefaults m n) sg s3)) = r"
proof -
  let ?cfg = "withDefaults m n"
  define s0 where "s0 = s3\<lparr>contents := [sg]\<rparr>"
  have r0: "remaining ?cfg s0 = r" using rem by (simp add: s0_def)
  from sg have nd: "sg \<noteq> cu CHR ''.''" by (rule sign_facts)
  obtain ch s1 where p: "peek ?cfg s0 = (ch, s1)" by (cases "peek ?cfg s0")
  from peek_head [of ?cfg s0] p r0 r
  have ch: "ch = None \<or> (\<exists>c. ch = Some c \<and> \<not> extendsNumber c)"
    by (cases r) auto
  define rI where "rI = (False, s1)"
  have e1: "integerPart ?cfg NoCheck (Suc 0) s0 = rI"
    using p ch unfolding rI_def
    by (subst integerPart.simps)
       (auto simp: selectCheck_def extendsNumber_def Let_def)
  have c1: "consumed ?cfg s0 [] (snd rI)" using consumed_peek [OF p] by (simp add: rI_def)
  define rE where "rE = eNotation ?cfg (fst rI) (snd rI)"
  from c1 r0 have r1: "remaining ?cfg (snd rI) = r" by (simp add: consumed_def)
  from r r1 have "remaining ?cfg (snd rI) = [] \<or>
      \<not> isENotation ?cfg (hd (remaining ?cfg (snd rI))) \<or>
      mode ?cfg AND scanFloats = 0" by (auto simp: extendsNumber_def)
  from eNotation_none [OF this, of "fst rI"]
  have fE: "\<not> fst rE" and cE: "consumed ?cfg (snd rI) [] (snd rE)"
    by (simp_all add: rE_def rI_def)
  from consumed_trans [OF c1 cE] have cc: "consumed ?cfg s0 [] (snd rE)" by simp
  then have ct: "contents (snd rE) = [sg]" and rr: "remaining ?cfg (snd rE) = r"
    using r0 by (simp_all add: consumed_def s0_def)
  have "scanNumber ?cfg sg s3 =
     (if (case contents (snd rE) of [x] \<Rightarrow> isSign ?cfg x | _ \<Rightarrow> False) then T_token
      else if fst rE then T_float else T_int, snd rE)"
  proof (rule scanNumber_parts)
    show "rI = (if sg \<noteq> cu CHR ''.'' then integerPart ?cfg NoCheck (Suc 0) (s3\<lparr>contents := [sg]\<rparr>)
                 else (True, s3\<lparr>contents := [sg]\<rparr>))"
      using e1 nd by (simp add: s0_def)
    show "snd rI = (if fst rI then decimalRun ?cfg (snd rI) else snd rI)"
      by (simp add: rI_def)
    show "rE = eNotation ?cfg (fst rI) (snd rI)" by (rule rE_def)
  qed
  with ct rr sg show "fst (scanNumber ?cfg sg s3) = T_token"
    and "contents (snd (scanNumber ?cfg sg s3)) = [sg]"
    and "remaining ?cfg (snd (scanNumber ?cfg sg s3)) = r"
    by simp_all
qed

text \<open>With the default predicates and ints or floats enabled, a sign followed by the end
  of the text, or by a character the numeric sub-machine does not take, is returned as
  the generic token, with the sign alone as contents.\<close>

lemma lone_sign_is_token:
  assumes "m AND (scanInts OR scanFloats) \<noteq> 0"
    and "default_isSign sg" and "r = [] \<or> \<not> extendsNumber (hd r)"
    and "remaining (withDefaults m n) s = sg # r"
  shows "fst (scan (withDefaults m n) s) = Inr T_token \<and>
         contents (snd (scan (withDefaults m n) s)) = [sg] \<and>
         remaining (withDefaults m n) (snd (scan (withDefaults m n) s)) = r"
proof -
  let ?cfg = "withDefaults m n"
  have en: "mode ?cfg AND (scanInts OR scanFloats) \<noteq> 0" using assms(1) by simp
  from assms(2) have "\<not> isWhitespace ?cfg sg" "\<not> isIdent ?cfg sg 0"
    "\<not> isStringDelimiter ?cfg sg" "isDecimal ?cfg sg \<or> isSign ?cfg sg"
    by (simp_all add: sign_facts)
  from scan_numeric_start [OF en assms(4) this] obtain s3 where
    r3: "remaining ?cfg s3 = r"
    and sc: "scan ?cfg s = (case scanNumber ?cfg sg s3 of (t, s4) \<Rightarrow> returnToken t s4)"
    by blast
  note sn = scanNumber_lone_sign [OF assms(2,3) r3]
  from sc sn show ?thesis by (simp add: returnToken_def split: prod.splits)
qed

text \<open>C7 at four inputs, with the default mask. A sign that nothing follows is returned
  as the generic token. A sign followed by a base marker, a \<open>.\<close> or an exponent marker is
  returned as a number although it has not extended into any digit: the sub-machine takes
  the follower, and the test for a lone sign asks only whether the contents are one
  character long.\<close>

theorem sign_without_digits_is_number:
  "fst (scan (newConfig noInit) (newScanner (StringReader (js ''+'')))) = Inr T_token \<and>
   contents (snd (scan (newConfig noInit) (newScanner (StringReader (js ''+''))))) = js ''+'' \<and>
   fst (scan (newConfig noInit) (newScanner (StringReader (js ''+x'')))) = Inr T_int \<and>
   contents (snd (scan (newConfig noInit) (newScanner (StringReader (js ''+x''))))) = js ''+x'' \<and>
   fst (scan (newConfig noInit) (newScanner (StringReader (js ''-.'')))) = Inr T_float \<and>
   contents (snd (scan (newConfig noInit) (newScanner (StringReader (js ''-.''))))) = js ''-.'' \<and>
   fst (scan (newConfig noInit) (newScanner (StringReader (js ''+e'')))) = Inr T_float \<and>
   contents (snd (scan (newConfig noInit) (newScanner (StringReader (js ''+e''))))) = js ''+e''"
  by code_simp

section \<open>Refill\<close>

lemma fill_stop: "MIN_READ \<le> length (buffer s) \<Longrightarrow> fill cfg s = s"
  by (subst fill.simps) simp

lemma fill_end: "length (buffer s) < MIN_READ \<Longrightarrow> reader s = [] \<Longrightarrow> fill cfg s = s"
  by (subst fill.simps) (simp add: defaultRead_def readerRead_def)

lemma fill_read:
  "length (buffer s) < MIN_READ \<Longrightarrow> reader s \<noteq> [] \<Longrightarrow> 0 < chunkBuffer cfg \<Longrightarrow>
   fill cfg s = fill cfg (s\<lparr>reader := drop (chunkBuffer cfg) (reader s),
        buffer := buffer s @ decoder cfg (take (chunkBuffer cfg) (reader s))\<rparr>)"
  by (subst fill.simps) (simp add: defaultRead_def readerRead_def min_def)

lemma take_two: "take (Suc 0) xs @ take (Suc 0) (drop (Suc 0) xs) = take 2 xs"
  using take_add [of "Suc 0" "Suc 0" xs] by (simp add: numeral_2_eq_2)

lemma ascii_take: "list_all (\<lambda>b. b \<le> 0x7F) (bs :: byte list) \<Longrightarrow> list_all (\<lambda>b. b \<le> 0x7F) (take k bs)"
  by (auto simp: list_all_iff dest: in_set_takeD)

lemma ascii_drop: "list_all (\<lambda>b. b \<le> 0x7F) (bs :: byte list) \<Longrightarrow> list_all (\<lambda>b. b \<le> 0x7F) (drop k bs)"
  by (auto simp: list_all_iff dest: in_set_dropD)

text \<open>A refill leaves the buffer with at least \<open>MIN_READ\<close> characters unless the reader
  has reported the end of the input, and delivers the text in order.\<close>

lemma fill_threshold:
  "MIN_READ \<le> length (buffer (fill cfg s)) \<or>
   fst (defaultRead (reader (fill cfg s)) (chunkBuffer cfg) (decoder cfg)) = None"
  using fill_exhausted [of cfg s] by (cases "length (buffer (fill cfg s)) < MIN_READ") auto

text \<open>Of ASCII bytes, decoded by the default decoder, a refill of the emptied buffer
  takes one chunk of the chunk buffer's size, or two when that size is 1: the front
  \<open>max 2 n\<close> bytes.\<close>

lemma fill_empty:
  assumes "0 < chunkBuffer cfg" "buffer s = []"
    and "decoder cfg = utf8Decode" "list_all (\<lambda>b. b \<le> 0x7F) (reader s)"
  shows "buffer (fill cfg s) = map ucast (take (max MIN_READ (chunkBuffer cfg)) (reader s)) \<and>
         reader (fill cfg s) = drop (max MIN_READ (chunkBuffer cfg)) (reader s)"
proof (cases "reader s = []")
  case True
  with assms fill_end [of s cfg] show ?thesis by (simp add: MIN_READ_def)
next
  case False
  let ?n = "chunkBuffer cfg"
  let ?s1 = "s\<lparr>reader := drop ?n (reader s),
               buffer := buffer s @ map ucast (take ?n (reader s))\<rparr>"
  from fill_read [OF _ False assms(1)] assms(2,3) utf8Decode_ascii [OF ascii_take [OF assms(4)]]
  have f1: "fill cfg s = fill cfg ?s1"
    by (simp add: MIN_READ_def)
  show ?thesis
  proof (cases "MIN_READ \<le> length (buffer ?s1)")
    case True
    then have "MIN_READ \<le> ?n" using assms(2) by simp
    with fill_stop [OF True, of cfg] f1 assms(2) show ?thesis by (simp add: max_def)
  next
    case short: False
    show ?thesis
    proof (cases "reader ?s1 = []")
      case True
      then have "length (reader s) \<le> ?n" by simp
      moreover from short assms(2) have "length (reader s) < MIN_READ \<or> ?n < MIN_READ"
        by (auto simp: min_def split: if_splits)
      ultimately have "take (max MIN_READ ?n) (reader s) = reader s"
        "drop (max MIN_READ ?n) (reader s) = []" "take ?n (reader s) = reader s"
        by (auto simp: max_def)
      with fill_end [of ?s1 cfg] short True f1 assms(2) show ?thesis by simp
    next
      case more: False
      then have lt: "?n < length (reader s)" by simp
      with short assms have n1: "?n = 1" by (auto simp: MIN_READ_def min_def split: if_splits)
      let ?s2 = "?s1\<lparr>reader := drop ?n (reader ?s1),
                     buffer := buffer ?s1 @ map ucast (take ?n (reader ?s1))\<rparr>"
      have a1: "list_all (\<lambda>b. b \<le> 0x7F) (reader ?s1)"
        using ascii_drop [OF assms(4)] by simp
      from fill_read [OF _ more assms(1)] short assms(3)
        utf8Decode_ascii [OF ascii_take [OF a1]]
      have f2: "fill cfg ?s1 = fill cfg ?s2" by simp
      have b2: "buffer ?s2 = map ucast (take 2 (reader s))" using assms(2) n1
        by (simp add: take_two flip: map_append)
      have r2: "reader ?s2 = drop 2 (reader s)" using n1 by (simp add: numeral_2_eq_2)
      from lt n1 have "MIN_READ \<le> length (buffer ?s2)" unfolding b2 by (simp add: MIN_READ_def)
      from fill_stop [OF this, of cfg] f1 f2 have e: "fill cfg s = ?s2" by (simp only:)
      have mx: "max MIN_READ ?n = 2" using n1 by (simp add: MIN_READ_def)
      have "buffer (fill cfg s) = map ucast (take 2 (reader s))" unfolding e by (rule b2)
      moreover have "reader (fill cfg s) = drop 2 (reader s)" unfolding e by (rule r2)
      ultimately show ?thesis unfolding mx by (rule conjI)
    qed
  qed
qed

text \<open>C8, as the code has it. The refill threshold is the constant \<open>MIN_READ = 2\<close>, which no
  option changes. The size of every read request is the length of the chunk buffer: that
  of the \<open>chunkBuffer\<close> option when given, else the \<open>minRead\<close> option, else (absent or 0)
  512; the bytes read are decoded. A refill, which \<open>peek\<close> makes when the read position
  has reached the end of the buffer, pulls chunks until the buffer holds at least 2
  characters or the reader reports the end of the input, and it delivers the text in
  order. Of ASCII bytes under the default decoder it takes the front \<open>max 2 n\<close> bytes,
  where \<open>n\<close> is the size of the chunk buffer.\<close>

theorem refill_threshold_is_constant:
  "MIN_READ = 2 \<and>
   chunkBuffer (newConfig init) =
     (case init_chunkBuffer init of
        Some k \<Rightarrow> k
      | None \<Rightarrow> (case init_minRead init of None \<Rightarrow> 512 | Some k \<Rightarrow> if k = 0 then 512 else k)) \<and>
   fst (defaultRead r (chunkBuffer cfg) (decoder cfg)) =
     (if r = [] \<or> chunkBuffer cfg = 0 then None
      else Some (decoder cfg (take (chunkBuffer cfg) r))) \<and>
   (length (buffer s) \<le> bufPos s \<longrightarrow>
      (2 \<le> length (buffer (snd (peek cfg s))) \<or>
       fst (defaultRead (reader (snd (peek cfg s))) (chunkBuffer cfg) (decoder cfg)) = None) \<and>
      buffer (snd (peek cfg s)) @ pending cfg (reader (snd (peek cfg s)))
        = pending cfg (reader s)) \<and>
   (0 < chunkBuffer cfg \<and> length (buffer s) \<le> bufPos s \<and> decoder cfg = utf8Decode \<and>
    list_all (\<lambda>b. b \<le> 0x7F) (reader s) \<longrightarrow>
      buffer (snd (peek cfg s)) = map ucast (take (max 2 (chunkBuffer cfg)) (reader s)) \<and>
      reader (snd (peek cfg s)) = drop (max 2 (chunkBuffer cfg)) (reader s) \<and>
      (2 \<le> length (buffer (snd (peek cfg s))) \<or> reader (snd (peek cfg s)) = []))"
proof (intro conjI impI)
  show "MIN_READ = 2" by (simp add: MIN_READ_def)
  show "chunkBuffer (newConfig init) =
     (case init_chunkBuffer init of
        Some k \<Rightarrow> k
      | None \<Rightarrow> (case init_minRead init of None \<Rightarrow> 512 | Some k \<Rightarrow> if k = 0 then 512 else k))"
    by (simp add: newConfig_def orNat_def split: option.splits)
  show "fst (defaultRead r (chunkBuffer cfg) (decoder cfg)) =
     (if r = [] \<or> chunkBuffer cfg = 0 then None
      else Some (decoder cfg (take (chunkBuffer cfg) r)))"
    by (auto simp: defaultRead_def readerRead_def min_def)
next
  assume a: "length (buffer s) \<le> bufPos s"
  let ?s0 = "s\<lparr>bufPos := 0, buffer := []\<rparr>"
  from a have p: "snd (peek cfg s) = fill cfg ?s0" by (simp add: peek_def Let_def)
  from fill_threshold [of cfg ?s0]
  show "2 \<le> length (buffer (snd (peek cfg s))) \<or>
       fst (defaultRead (reader (snd (peek cfg s))) (chunkBuffer cfg) (decoder cfg)) = None"
    unfolding p by (simp add: MIN_READ_def)
  from fill_text [of cfg ?s0]
  show "buffer (snd (peek cfg s)) @ pending cfg (reader (snd (peek cfg s)))
        = pending cfg (reader s)"
    unfolding p by simp
next
  assume a: "0 < chunkBuffer cfg \<and> length (buffer s) \<le> bufPos s \<and> decoder cfg = utf8Decode \<and>
    list_all (\<lambda>b. b \<le> 0x7F) (reader s)"
  let ?s0 = "s\<lparr>bufPos := 0, buffer := []\<rparr>"
  from a have p: "snd (peek cfg s) = fill cfg ?s0" by (simp add: peek_def Let_def)
  from a fill_empty [of cfg ?s0]
  have f: "buffer (fill cfg ?s0) = map ucast (take (max 2 (chunkBuffer cfg)) (reader s))"
    "reader (fill cfg ?s0) = drop (max 2 (chunkBuffer cfg)) (reader s)"
    by (simp_all add: MIN_READ_def)
  show "buffer (snd (peek cfg s)) = map ucast (take (max 2 (chunkBuffer cfg)) (reader s))"
    unfolding p by (rule f(1))
  show "reader (snd (peek cfg s)) = drop (max 2 (chunkBuffer cfg)) (reader s)"
    unfolding p by (rule f(2))
  show "2 \<le> length (buffer (snd (peek cfg s))) \<or> reader (snd (peek cfg s)) = []"
    unfolding p f by (auto simp: min_def max_def)
qed

theorem refill_threshold_is_constant_witness:
  "chunkBuffer (newConfig (noInit\<lparr>init_minRead := Some 3\<rparr>)) = 3 \<and>
   buffer (snd (peek (newConfig (noInit\<lparr>init_minRead := Some 3\<rparr>))
                 (newScanner (StringReader (js ''abcdefgh'')))))
     = js ''abc'' \<and>
   reader (snd (peek (newConfig (noInit\<lparr>init_minRead := Some 3\<rparr>))
                 (newScanner (StringReader (js ''abcdefgh'')))))
     = StringReader (js ''defgh'')"
proof -
  let ?I = "noInit\<lparr>init_minRead := Some 3\<rparr>"
  let ?S = "newScanner (StringReader (js ''abcdefgh''))"
  have c: "chunkBuffer (newConfig ?I) = 3" by (simp add: newConfig_def noInit_def orNat_def)
  have d: "decoder (newConfig ?I) = utf8Decode"
    by (simp add: newConfig_def noInit_def orElse_def)
  have b: "buffer ?S = []" "bufPos ?S = 0" by (simp_all add: newScanner_def)
  have a: "list_all (\<lambda>b. b \<le> 0x7F) (reader ?S)" by code_simp
  have t: "map ucast (take (max 2 3) (reader ?S)) = js ''abc''" by code_simp
  have r: "drop (max 2 3) (reader ?S) = StringReader (js ''defgh'')" by code_simp
  from refill_threshold_is_constant [of ?I "[]" "newConfig ?I" ?S] c d b a t r
  show ?thesis by simp
qed

text \<open>C8 as the spec states it fails: with \<open>minRead\<close> 5 and a one-byte chunk buffer a
  refill stops at 2 buffered characters although the reader has more.\<close>

theorem min_lookahead_counterexample:
  "init_minRead (noInit\<lparr>init_minRead := Some 5, init_chunkBuffer := Some 1\<rparr>) = Some 5 \<and>
   buffer (snd (peek (newConfig (noInit\<lparr>init_minRead := Some 5, init_chunkBuffer := Some 1\<rparr>))
                 (newScanner (StringReader (js ''abcdefgh''))))) = js ''ab'' \<and>
   reader (snd (peek (newConfig (noInit\<lparr>init_minRead := Some 5, init_chunkBuffer := Some 1\<rparr>))
                 (newScanner (StringReader (js ''abcdefgh''))))) = StringReader (js ''cdefgh'')"
  by code_simp


section \<open>The helpers: positions, TokenError, nextTokenIs\<close>

text \<open>A whole number as JavaScript's template strings print it.\<close>

function showNat :: "nat \<Rightarrow> jsstring" where
  "showNat n = (if n < 10 then [of_nat (48 + n)]
                else showNat (n div 10) @ [of_nat (48 + n mod 10)])"
  by pat_completeness auto
termination
  by (relation "measure id") auto

declare showNat.simps [simp del]

definition showInt :: "int \<Rightarrow> jsstring" where
  "showInt i = (if i < 0 then (cu CHR ''-'') # showNat (nat (- i)) else showNat (nat i))"

definition longPosition :: "Scanner \<Rightarrow> jsstring" where
  "longPosition scanner =
     js ''line '' @ showInt (fst (startPos scanner)) @ js '', column '' @ showInt (snd (startPos scanner))"

definition shortPosition :: "Scanner \<Rightarrow> jsstring" where
  "shortPosition scanner =
     showInt (fst (startPos scanner)) @ js '':'' @ showInt (snd (startPos scanner))"

text \<open>The message that the constructor of \<open>TokenError\<close> builds. The optional parameters are
  \<open>None\<close> when absent. \<open>if (expectedToken)\<close> tests the number for truthiness: it fails for
  an absent token and for the enum value 0.\<close>

definition TokenError :: "Scanner \<Rightarrow> Token \<Rightarrow> Token option \<Rightarrow> jsstring option \<Rightarrow> jsstring" where
  "TokenError scanner actualToken expectedToken expectedContents =
     (let message = js ''unexpected '' @ tokenName actualToken;
          contents' = (if contents scanner \<noteq> [] then (js '' ('') @ contents scanner @ js '')'' else []);
          expected =
            (case expectedToken of
               None \<Rightarrow> []
             | Some et \<Rightarrow>
                 if tokenNum et \<noteq> 0 then
                   js ''; expected '' @ tokenName et @
                   (case expectedContents of None \<Rightarrow> [] | Some c \<Rightarrow> js '' '' @ c)
                 else [])
      in message @ contents' @ js '' on '' @ longPosition scanner @ expected)"

text \<open>\<open>nextTokenIs\<close> throws what \<open>scan\<close> throws, or a \<open>TokenError\<close>.\<close>

datatype Failure = ScanFailure ScanError | TokenFailure jsstring

definition nextTokenIs ::
  "Config \<Rightarrow> Scanner \<Rightarrow> Token \<Rightarrow> jsstring option \<Rightarrow> (Failure + jsstring) \<times> Scanner" where
  "nextTokenIs cfg scanner expectedToken expectedContents =
     (case scan cfg scanner of
        (Inl e, s') \<Rightarrow> (Inl (ScanFailure e), s')
      | (Inr actualToken, s') \<Rightarrow>
          (let wantsContents = (expectedContents \<noteq> None);
               sameContents = (\<not> wantsContents \<or> expectedContents = Some (contents s'));
               sameTokens = (actualToken = expectedToken)
           in if \<not> sameTokens \<or> \<not> sameContents
              then (Inl (TokenFailure (TokenError s' actualToken (Some expectedToken)
                                          expectedContents)), s')
              else (Inr (contents s'), s')))"

text \<open>The message described part by part: \<open>unexpected <category>\<close>; the contents
  in parentheses when there are any; the start position; and, when an expected category
  is given, \<open>; expected <category>\<close>, followed by the expected contents when given.\<close>

definition describedMessage ::
  "Token \<Rightarrow> jsstring \<Rightarrow> int \<times> int \<Rightarrow> Token option \<Rightarrow> jsstring option \<Rightarrow> jsstring" where
  "describedMessage t c pos expected ec =
     js ''unexpected '' @ tokenName t @ (if c = [] then [] else (js '' ('') @ c @ js '')'') @
     js '' on line '' @ showInt (fst pos) @ js '', column '' @ showInt (snd pos) @
     (case expected of
        None \<Rightarrow> []
      | Some et \<Rightarrow> js ''; expected '' @ tokenName et @
                   (case ec of None \<Rightarrow> [] | Some x \<Rightarrow> js '' '' @ x))"

text \<open>The message as the spec words it, the contents always in parentheses:
  \<open>unexpected <category> (<contents>) on line <L>, column <C>[; expected <category> <contents>]\<close>.\<close>

definition claimedMessage ::
  "Token \<Rightarrow> jsstring \<Rightarrow> int \<times> int \<Rightarrow> (Token \<times> jsstring) option \<Rightarrow> jsstring" where
  "claimedMessage t c pos expected =
     js ''unexpected '' @ tokenName t @ js '' ('' @ c @ js '')'' @
     js '' on line '' @ showInt (fst pos) @ js '', column '' @ showInt (snd pos) @
     (case expected of
        None \<Rightarrow> []
      | Some (et, ec) \<Rightarrow> js ''; expected '' @ tokenName et @ js '' '' @ ec)"

lemma tokenNum_zero: "tokenNum t = 0 \<longleftrightarrow> t = T_token"
  by (cases t) simp_all

lemma TokenError_described:
  "expected \<noteq> Some T_token \<Longrightarrow>
   TokenError s t expected ec = describedMessage t (contents s) (startPos s) expected ec"
  by (auto simp: TokenError_def describedMessage_def longPosition_def Let_def tokenNum_zero
           split: option.splits)

text \<open>When the expected category is the generic token, whose enum value is 0, the
  message carries no \<open>; expected\<close> part.\<close>

lemma TokenError_expected_token:
  "TokenError s t (Some T_token) ec = describedMessage t (contents s) (startPos s) None ec"
  by (simp add: TokenError_def describedMessage_def longPosition_def Let_def)

text \<open>C9, as the code has it. \<open>nextTokenIs\<close> leaves the scanner as one call of \<open>scan\<close> leaves
  it. An error of \<open>scan\<close> is passed on. Otherwise it throws a \<open>TokenError\<close> exactly when
  the category observed differs from the expected one or expected contents are given and
  differ from the contents observed, and else returns the contents. The message of a
  \<open>TokenError\<close> whose expected category is absent or is not the generic token is the one
  \<open>describedMessage\<close> spells out.\<close>

theorem nextTokenIs_behaviour:
  "snd (nextTokenIs cfg s et ec) = snd (scan cfg s) \<and>
   (fst (scan cfg s) = Inl e \<longrightarrow> fst (nextTokenIs cfg s et ec) = Inl (ScanFailure e)) \<and>
   (fst (scan cfg s) = Inr t \<longrightarrow>
      fst (nextTokenIs cfg s et ec) =
        (if t \<noteq> et \<or> (\<exists>c. ec = Some c \<and> c \<noteq> contents (snd (scan cfg s)))
         then Inl (TokenFailure (TokenError (snd (scan cfg s)) t (Some et) ec))
         else Inr (contents (snd (scan cfg s))))) \<and>
   (expected \<noteq> Some T_token \<longrightarrow>
      TokenError s' t' expected ec' =
        describedMessage t' (contents s') (startPos s') expected ec')"
proof (intro conjI impI)
  show "snd (nextTokenIs cfg s et ec) = snd (scan cfg s)"
  proof (cases "scan cfg s")
    case (Pair r s1)
    then show ?thesis by (cases r) (simp_all add: nextTokenIs_def Let_def)
  qed
next
  assume "fst (scan cfg s) = Inl e"
  then show "fst (nextTokenIs cfg s et ec) = Inl (ScanFailure e)"
    by (cases "scan cfg s") (simp add: nextTokenIs_def)
next
  assume "fst (scan cfg s) = Inr t"
  then show "fst (nextTokenIs cfg s et ec) =
        (if t \<noteq> et \<or> (\<exists>c. ec = Some c \<and> c \<noteq> contents (snd (scan cfg s)))
         then Inl (TokenFailure (TokenError (snd (scan cfg s)) t (Some et) ec))
         else Inr (contents (snd (scan cfg s))))"
    by (cases "scan cfg s"; cases ec) (auto simp: nextTokenIs_def Let_def)
next
  assume "expected \<noteq> Some T_token"
  then show "TokenError s' t' expected ec' =
        describedMessage t' (contents s') (startPos s') expected ec'"
    by (rule TokenError_described)
qed

theorem nextTokenIs_behaviour_witness:
  "fst (scan (newConfig noInit) (newScanner (StringReader (js ''foo'')))) = Inr T_identifier \<and>
   fst (nextTokenIs (newConfig noInit) (newScanner (StringReader (js ''foo''))) T_int None) =
     Inl (TokenFailure (js ''unexpected identifier (foo) on line 1, column 1; expected int''))"
proof -
  let ?C = "newConfig noInit" and ?S = "newScanner (StringReader (js ''foo''))"
  have h: "fst (scan ?C ?S) = Inr T_identifier" by code_simp
  have c: "contents (snd (scan ?C ?S)) = js ''foo''" by code_simp
  have p: "startPos (snd (scan ?C ?S)) = (1, 1)" by code_simp
  have d: "describedMessage T_identifier (js ''foo'') (1, 1) (Some T_int) None =
      js ''unexpected identifier (foo) on line 1, column 1; expected int''" by code_simp
  from nextTokenIs_behaviour [of ?C ?S T_int None LiteralNotTerminated T_identifier
      "Some T_int" "snd (scan ?C ?S)" T_identifier None] h c p d
  show ?thesis by simp
qed

text \<open>C9 as the spec states it fails: on \<open>eof\<close> the contents are empty and the message has
  no parenthesised part.\<close>

theorem token_error_message_counterexample:
  "fst (nextTokenIs (newConfig noInit) (newScanner []) T_identifier (Some (js ''foo''))) =
     Inl (TokenFailure (js ''unexpected eof on line 1, column 0; expected identifier foo'')) \<and>
   claimedMessage T_eof [] (1, 0) (Some (T_identifier, js ''foo'')) =
     js ''unexpected eof () on line 1, column 0; expected identifier foo''"
  by code_simp

section \<open>The mask and the stale token do not steer the cursor\<close>

text \<open>No loop reads \<open>currentToken\<close>, and none reads the mask except for its float bit in
  the numeric sub-machine. So a scanner with another mask, started with another
  \<open>currentToken\<close>, goes through the same states up to that field.\<close>

lemma currentToken_reader_buffer:
  "s\<lparr>currentToken := x, reader := r, buffer := b\<rparr> =
   s\<lparr>reader := r, buffer := b, currentToken := x\<rparr>"
  by simp

lemma currentToken_bufPos_buffer:
  "s\<lparr>currentToken := x, bufPos := k, buffer := b\<rparr> =
   s\<lparr>bufPos := k, buffer := b, currentToken := x\<rparr>"
  by simp

lemma fill_frame:
  "fill (cfg\<lparr>mode := m\<rparr>) (s\<lparr>currentToken := x\<rparr>) = (fill cfg s)\<lparr>currentToken := x\<rparr>"
proof (induction cfg s rule: fill.induct)
  case (1 cfg s)
  obtain a r' where d: "defaultRead (reader s) (chunkBuffer cfg) (decoder cfg) = (a, r')"
    by (cases "defaultRead (reader s) (chunkBuffer cfg) (decoder cfg)")
  show ?case
  proof (cases "length (buffer s) < MIN_READ")
    case False
    then show ?thesis
      by (simp add: fill.simps [of cfg s] fill.simps [of "cfg\<lparr>mode := m\<rparr>" "s\<lparr>currentToken := x\<rparr>"])
  next
    case True
    show ?thesis
    proof (cases a)
      case None
      with True d show ?thesis
        by (simp add: fill.simps [of cfg s]
            fill.simps [of "cfg\<lparr>mode := m\<rparr>" "s\<lparr>currentToken := x\<rparr>"])
    next
      case (Some chunk)
      with True d 1 [OF True d [symmetric] Some] show ?thesis
        by (simp add: fill.simps [of cfg s] currentToken_reader_buffer
            fill.simps [of "cfg\<lparr>mode := m\<rparr>" "s\<lparr>currentToken := x\<rparr>"])
    qed
  qed
qed

lemma peek_frame:
  "peek cfg s = (ch, s1) \<Longrightarrow>
   peek (cfg\<lparr>mode := m\<rparr>) (s\<lparr>currentToken := x\<rparr>) = (ch, s1\<lparr>currentToken := x\<rparr>)"
  using fill_frame [where cfg = cfg and m = m and s = "s\<lparr>bufPos := 0, buffer := []\<rparr>" and x = x]
  by (auto simp: peek_def Let_def currentToken_bufPos_buffer)

lemma next_frame:
  "next cfg s = (ch, s1) \<Longrightarrow>
   next (cfg\<lparr>mode := m\<rparr>) (s\<lparr>currentToken := x\<rparr>) = (ch, s1\<lparr>currentToken := x\<rparr>)"
proof -
  assume n: "next cfg s = (ch, s1)"
  obtain c0 s0 where p: "peek cfg s = (c0, s0)" by (cases "peek cfg s")
  from n p peek_frame [OF p, where m = m and x = x] show ?thesis
    by (auto simp: next_def)
qed

lemma appendNext_frame:
  "appendNext (cfg\<lparr>mode := m\<rparr>) (s\<lparr>currentToken := x\<rparr>) = (appendNext cfg s)\<lparr>currentToken := x\<rparr>"
proof -
  obtain ch s1 where n: "next cfg s = (ch, s1)" by (cases "next cfg s")
  from n next_frame [OF n, where m = m and x = x] show ?thesis by (simp add: appendNext_def)
qed

lemma whitespaceLoop_frame:
  "whitespaceLoop (cfg\<lparr>mode := m\<rparr>) (s\<lparr>currentToken := x\<rparr>) =
   (whitespaceLoop cfg s)\<lparr>currentToken := x\<rparr>"
proof (induction cfg s rule: whitespaceLoop.induct)
  case (1 cfg s)
  obtain ch s1 where p: "peek cfg s = (ch, s1)" by (cases "peek cfg s")
  note p' = peek_frame [OF p, where m = m and x = x]
  note u = whitespaceLoop.simps [of cfg s]
    whitespaceLoop.simps [of "cfg\<lparr>mode := m\<rparr>" "s\<lparr>currentToken := x\<rparr>"]
  show ?case
  proof (cases ch)
    case None
    with p p' show ?thesis by (simp add: u)
  next
    case (Some c)
    with p p' 1 [OF p [symmetric] Some] show ?thesis by (simp add: u appendNext_frame)
  qed
qed

lemma identLoop_frame:
  "identLoop (cfg\<lparr>mode := m\<rparr>) i (s\<lparr>currentToken := x\<rparr>) =
   (identLoop cfg i s)\<lparr>currentToken := x\<rparr>"
proof (induction cfg i s rule: identLoop.induct)
  case (1 cfg i s)
  obtain ch s1 where p: "peek cfg s = (ch, s1)" by (cases "peek cfg s")
  note p' = peek_frame [OF p, where m = m and x = x]
  note u = identLoop.simps [of cfg i s]
    identLoop.simps [of "cfg\<lparr>mode := m\<rparr>" i "s\<lparr>currentToken := x\<rparr>"]
  show ?case
  proof (cases ch)
    case None
    with p p' show ?thesis by (simp add: u)
  next
    case (Some c)
    with p p' 1 [OF p [symmetric] Some] show ?thesis by (simp add: u appendNext_frame)
  qed
qed

lemma decimalRun_frame:
  "decimalRun (cfg\<lparr>mode := m\<rparr>) (s\<lparr>currentToken := x\<rparr>) =
   (decimalRun cfg s)\<lparr>currentToken := x\<rparr>"
proof (induction cfg s rule: decimalRun.induct)
  case (1 cfg s)
  obtain ch s1 where p: "peek cfg s = (ch, s1)" by (cases "peek cfg s")
  note p' = peek_frame [OF p, where m = m and x = x]
  note u = decimalRun.simps [of cfg s]
    decimalRun.simps [of "cfg\<lparr>mode := m\<rparr>" "s\<lparr>currentToken := x\<rparr>"]
  show ?case
  proof (cases ch)
    case None
    with p p' show ?thesis by (simp add: u)
  next
    case (Some c)
    with p p' 1 [OF p [symmetric] Some] show ?thesis by (simp add: u appendNext_frame)
  qed
qed

lemma escapeStep_frame:
  "escapeStep (cfg\<lparr>mode := m\<rparr>) delim c (s\<lparr>currentToken := x\<rparr>) =
   (escapeStep cfg delim c s)\<lparr>currentToken := x\<rparr>"
proof -
  obtain ch s1 where p: "peek cfg s = (ch, s1)" by (cases "peek cfg s")
  from p peek_frame [OF p, where m = m and x = x] show ?thesis
    by (simp add: escapeStep_def appendNext_frame)
qed

lemma stringLoop_frame:
  "stringLoop (cfg\<lparr>mode := m\<rparr>) delim (s\<lparr>currentToken := x\<rparr>) =
   (fst (stringLoop cfg delim s), (snd (stringLoop cfg delim s))\<lparr>currentToken := x\<rparr>)"
proof (induction cfg delim s rule: stringLoop.induct)
  case (1 cfg delim s)
  obtain ch s1 where p: "peek cfg s = (ch, s1)" by (cases "peek cfg s")
  note p' = peek_frame [OF p, where m = m and x = x]
  note u = stringLoop.simps [of cfg delim s]
    stringLoop.simps [of "cfg\<lparr>mode := m\<rparr>" delim "s\<lparr>currentToken := x\<rparr>"]
  show ?case
  proof (cases ch)
    case None
    with p p' show ?thesis by (simp add: u)
  next
    case (Some c)
    with p p' 1 [OF p [symmetric] Some _ refl] show ?thesis
      by (simp add: u appendNext_frame escapeStep_frame Let_def)
  qed
qed

lemma integerPart_frame:
  "(m AND scanFloats = 0) = (mode cfg AND scanFloats = 0) \<Longrightarrow>
   integerPart (cfg\<lparr>mode := m\<rparr>) check i (s\<lparr>currentToken := x\<rparr>) =
   (fst (integerPart cfg check i s), (snd (integerPart cfg check i s))\<lparr>currentToken := x\<rparr>)"
proof (induction cfg check i s rule: integerPart.induct)
  case (1 cfg check i s)
  obtain ch s1 where p: "peek cfg s = (ch, s1)" by (cases "peek cfg s")
  note p' = peek_frame [OF p, where m = m and x = x]
  note u = integerPart.simps [of cfg check i s]
    integerPart.simps [of "cfg\<lparr>mode := m\<rparr>" check i "s\<lparr>currentToken := x\<rparr>"]
  have sel: "\<And>c. selectCheck (cfg\<lparr>mode := m\<rparr>) check c i = selectCheck cfg check c i"
    by (simp add: selectCheck_def)
  have run: "\<And>k c. runCheck (cfg\<lparr>mode := m\<rparr>) k c i = runCheck cfg k c i"
    by (case_tac k) simp_all
  show ?case
  proof (cases ch)
    case None
    with p p' show ?thesis by (simp add: u)
  next
    case (Some c)
    with p p' 1(1) [OF p [symmetric] Some _ refl _ 1(2)] 1(2) show ?thesis
      by (simp add: u appendNext_frame Let_def sel run)
  qed
qed

lemma eNotation_frame:
  assumes "(m AND scanFloats = 0) = (mode cfg AND scanFloats = 0)"
  shows "eNotation (cfg\<lparr>mode := m\<rparr>) f (s\<lparr>currentToken := x\<rparr>) =
   (fst (eNotation cfg f s), (snd (eNotation cfg f s))\<lparr>currentToken := x\<rparr>)"
proof -
  obtain ch s1 where p: "peek cfg s = (ch, s1)" by (cases "peek cfg s")
  note p' = peek_frame [OF p, where m = m and x = x]
  obtain ch2 s3 where p2: "peek cfg (appendNext cfg s1) = (ch2, s3)"
    by (cases "peek cfg (appendNext cfg s1)")
  note p2' = peek_frame [OF p2, where m = m and x = x]
  from p p' p2 p2' assms show ?thesis
    by (simp add: eNotation_def appendNext_frame decimalRun_frame Let_def
             split: option.splits)
qed

lemma scanNumber_frame:
  assumes "(m AND scanFloats = 0) = (mode cfg AND scanFloats = 0)"
  shows "scanNumber (cfg\<lparr>mode := m\<rparr>) ch (s\<lparr>currentToken := x\<rparr>) =
   (fst (scanNumber cfg ch s), (snd (scanNumber cfg ch s))\<lparr>currentToken := x\<rparr>)"
proof -
  have c: "s\<lparr>currentToken := x, contents := [ch]\<rparr> = s\<lparr>contents := [ch], currentToken := x\<rparr>"
    by simp
  define r1 where "r1 = (if ch \<noteq> cu CHR ''.'' then integerPart cfg NoCheck (Suc 0) (s\<lparr>contents := [ch]\<rparr>)
                 else (True, s\<lparr>contents := [ch]\<rparr>))"
  define s2 where "s2 = (if fst r1 then decimalRun cfg (snd r1) else snd r1)"
  define r3 where "r3 = eNotation cfg (fst r1) s2"
  let ?up = "\<lambda>s. s\<lparr>currentToken := x\<rparr>"
  have a: "(fst r1, ?up (snd r1)) =
      (if ch \<noteq> cu CHR ''.''
       then integerPart (cfg\<lparr>mode := m\<rparr>) NoCheck (Suc 0) ((?up s)\<lparr>contents := [ch]\<rparr>)
       else (True, (?up s)\<lparr>contents := [ch]\<rparr>))"
    by (simp add: r1_def c integerPart_frame [OF assms])
  have b: "?up s2 = (if fst (fst r1, ?up (snd r1))
       then decimalRun (cfg\<lparr>mode := m\<rparr>) (snd (fst r1, ?up (snd r1)))
       else snd (fst r1, ?up (snd r1)))"
    by (simp add: s2_def decimalRun_frame)
  have d: "(fst r3, ?up (snd r3)) =
      eNotation (cfg\<lparr>mode := m\<rparr>) (fst (fst r1, ?up (snd r1))) (?up s2)"
    by (simp add: r3_def eNotation_frame [OF assms])
  from scanNumber_parts [OF a b d] scanNumber_parts [OF r1_def s2_def r3_def]
  show ?thesis by (simp split: list.splits)
qed

lemma commentLoop_frame:
  "commentLoop (cfg\<lparr>mode := m\<rparr>) b i (s\<lparr>currentToken := x\<rparr>) =
   (fst (commentLoop cfg b i s), (snd (commentLoop cfg b i s))\<lparr>currentToken := x\<rparr>)"
proof (induction cfg b i s rule: commentLoop.induct)
  case (1 cfg b i s)
  obtain ch s1 where p: "peek cfg s = (ch, s1)" by (cases "peek cfg s")
  note p' = peek_frame [OF p, where m = m and x = x]
  obtain pk s3 where p3: "peek cfg (appendNext cfg s1) = (pk, s3)"
    by (cases "peek cfg (appendNext cfg s1)")
  note p3' = peek_frame [OF p3, where m = m and x = x]
  note u = commentLoop.simps [of cfg b i s]
    commentLoop.simps [of "cfg\<lparr>mode := m\<rparr>" b i "s\<lparr>currentToken := x\<rparr>"]
  show ?case
  proof (cases "\<not> b \<and> (case ch of None \<Rightarrow> True | Some c \<Rightarrow> \<not> isComment cfg c i)")
    case True
    show ?thesis unfolding u using True p p' by (auto split: option.splits)
  next
    case False
    show ?thesis
    proof (cases b)
      case nb: False
      with False obtain c where c: "ch = Some c" "isComment cfg c i" by (cases ch) auto
      from 1(2) [OF p [symmetric] False refl nb]
      show ?thesis unfolding u using p p' nb c
        by (simp add: appendNext_frame Let_def)
    next
      case bc: True
      show ?thesis
      proof (cases ch)
        case None
        show ?thesis unfolding u using p p' bc None
          by (simp add: appendNext_frame Let_def)
      next
        case (Some c)
        from 1(1) [OF p [symmetric] False refl bc Some p3 [symmetric]]
        show ?thesis unfolding u using p p' p3 p3' bc Some
          by (auto simp: appendNext_frame Let_def split: option.splits)
      qed
    qed
  qed
qed

text \<open>The same for one pass. A finished pass that returns a token has set
  \<open>currentToken\<close> itself.\<close>

fun reframe :: "Token option \<Rightarrow> Attempt \<Rightarrow> Attempt" where
  "reframe x (Done (Inl e, s)) = Done (Inl e, s\<lparr>currentToken := x\<rparr>)"
| "reframe x (Done (Inr t, s)) = Done (Inr t, s)"
| "reframe x (Gated g sk (t, se)) = Gated g (sk\<lparr>currentToken := x\<rparr>) (t, se\<lparr>currentToken := x\<rparr>)"

lemma attempt_first:
  assumes "next cfg s = (Some ch, s1)" "peek cfg s1 = (pk, s2)"
    and "s3 = s2\<lparr>startPos := (line s2, column s2)\<rparr>" and "first = s3\<lparr>contents := [ch]\<rparr>"
  shows "attempt cfg s =
     (if isWhitespace cfg ch then
        Gated scanWhitespace (whitespaceLoop cfg first) (T_whitespace, whitespaceLoop cfg first)
      else if isIdent cfg ch 0 then
        Gated scanIdents (identLoop cfg 1 first)
          (if isKeyword cfg (contents (identLoop cfg 1 first)) then T_keyword else T_identifier,
           identLoop cfg 1 first)
      else if isStringDelimiter cfg ch then
        (case stringLoop cfg ch first of
           (Some e, s4) \<Rightarrow> Done (Inl e, s4)
         | (None, s4) \<Rightarrow> Gated scanStrings s4 (T_string, s4))
      else if isDecimal cfg ch \<or> isSign cfg ch \<or>
              (ch = cu CHR ''.'' \<and> (case pk of None \<Rightarrow> False | Some p \<Rightarrow> isDecimal cfg p))
      then Gated (scanInts OR scanFloats) s3 (scanNumber cfg ch s3)
      else if isComment cfg ch 0 \<or> isBlockCommentOpen cfg ch 0 then
        (case commentLoop cfg (case pk of None \<Rightarrow> False
                | Some p \<Rightarrow> isBlockCommentOpen cfg ch 0 \<and> isBlockCommentOpen cfg p 1) 1 first of
           (Some e, s4) \<Rightarrow> Done (Inl e, s4)
         | (None, s4) \<Rightarrow> Gated scanComments s4 (T_comment, s4))
      else Done (returnToken T_token first))"
  unfolding attempt_Some [OF assms(1,2)] assms(3,4) Let_def ..

lemma attempt_frame:
  assumes fl: "(m AND scanFloats = 0) = (mode cfg AND scanFloats = 0)"
  shows "attempt (cfg\<lparr>mode := m\<rparr>) (s\<lparr>currentToken := x\<rparr>) = reframe x (attempt cfg s)"
proof -
  let ?cfg' = "cfg\<lparr>mode := m\<rparr>"
  obtain ch0 s1 where n: "next cfg s = (ch0, s1)" by (cases "next cfg s")
  obtain pk s2 where p: "peek cfg s1 = (pk, s2)" by (cases "peek cfg s1")
  note n' = next_frame [OF n, where m = m and x = x]
  note p' = peek_frame [OF p, where m = m and x = x]
  show ?thesis
  proof (cases ch0)
    case None
    with n p n' p' show ?thesis
      by (simp add: attempt_def eofState_def Let_def)
  next
    case (Some ch)
    define s3 where "s3 = s2\<lparr>startPos := (line s2, column s2)\<rparr>"
    define first where "first = s3\<lparr>contents := [ch]\<rparr>"
    have e3: "s3\<lparr>currentToken := x\<rparr> =
        (s2\<lparr>currentToken := x\<rparr>)\<lparr>startPos := (line (s2\<lparr>currentToken := x\<rparr>),
                                             column (s2\<lparr>currentToken := x\<rparr>))\<rparr>"
      by (simp add: s3_def)
    have ef: "first\<lparr>currentToken := x\<rparr> = (s3\<lparr>currentToken := x\<rparr>)\<lparr>contents := [ch]\<rparr>"
      by (simp add: first_def)
    note a = attempt_first [OF n [unfolded Some] p s3_def first_def]
    note a' = attempt_first [OF n' [unfolded Some] p' e3 ef]
    show ?thesis
    proof (cases "isWhitespace cfg ch")
      case True
      then show ?thesis unfolding a a' by (simp add: whitespaceLoop_frame)
    next
      case nw: False
      show ?thesis
      proof (cases "isIdent cfg ch 0")
        case True
        with nw show ?thesis unfolding a a' by (simp add: identLoop_frame)
      next
        case ni: False
        show ?thesis
        proof (cases "isStringDelimiter cfg ch")
          case True
          obtain r s4 where sl: "stringLoop cfg ch first = (r, s4)"
            by (cases "stringLoop cfg ch first")
          with nw ni True show ?thesis unfolding a a'
            by (cases r) (simp_all add: stringLoop_frame)
        next
          case ns: False
          show ?thesis
          proof (cases "isDecimal cfg ch \<or> isSign cfg ch \<or>
              (ch = cu CHR ''.'' \<and> (case pk of None \<Rightarrow> False | Some p \<Rightarrow> isDecimal cfg p))")
            case True
            obtain t s4 where sn: "scanNumber cfg ch s3 = (t, s4)"
              by (cases "scanNumber cfg ch s3")
            from nw ni ns True have
              "attempt cfg s = Gated (scanInts OR scanFloats) s3 (scanNumber cfg ch s3)"
              unfolding a by simp
            moreover from nw ni ns True have
              "attempt ?cfg' (s\<lparr>currentToken := x\<rparr>) =
                Gated (scanInts OR scanFloats) (s3\<lparr>currentToken := x\<rparr>)
                  (scanNumber ?cfg' ch (s3\<lparr>currentToken := x\<rparr>))"
              unfolding a' by (simp cong: option.case_cong)
            ultimately show ?thesis using sn by (simp add: scanNumber_frame [OF fl])
          next
            case nn: False
            show ?thesis
            proof (cases "isComment cfg ch 0 \<or> isBlockCommentOpen cfg ch 0")
              case True
              define b where "b = (case pk of None \<Rightarrow> False
                | Some p \<Rightarrow> isBlockCommentOpen cfg ch 0 \<and> isBlockCommentOpen cfg p 1)"
              obtain r s4 where cl: "commentLoop cfg b 1 first = (r, s4)"
                by (cases "commentLoop cfg b 1 first")
              from nw ni ns nn True have
                "attempt cfg s = (case commentLoop cfg b 1 first of
                     (Some e, s4) \<Rightarrow> Done (Inl e, s4)
                   | (None, s4) \<Rightarrow> Gated scanComments s4 (T_comment, s4))"
                unfolding a b_def by auto
              moreover from nw ni ns nn True have
                "attempt ?cfg' (s\<lparr>currentToken := x\<rparr>) =
                   (case commentLoop ?cfg' b 1 (first\<lparr>currentToken := x\<rparr>) of
                     (Some e, s4) \<Rightarrow> Done (Inl e, s4)
                   | (None, s4) \<Rightarrow> Gated scanComments s4 (T_comment, s4))"
                unfolding a' b_def by (auto cong: option.case_cong)
              ultimately show ?thesis using cl
                by (cases r) (simp_all add: commentLoop_frame)
            next
              case False
              with nw ni ns nn show ?thesis unfolding a a'
                by (auto simp: returnToken_def cong: option.case_cong)
            qed
          qed
        qed
      qed
    qed
  qed
qed

section \<open>Disabling a category\<close>

text \<open>The mask bit a token's category answers to; the generic token and \<open>eof\<close> have
  none.\<close>

fun tokenMask :: "Token \<Rightarrow> 32 word option" where
  "tokenMask T_whitespace = Some scanWhitespace"
| "tokenMask T_identifier = Some scanIdents"
| "tokenMask T_keyword = Some scanIdents"
| "tokenMask T_int = Some scanInts"
| "tokenMask T_float = Some scanFloats"
| "tokenMask T_string = Some scanStrings"
| "tokenMask T_comment = Some scanComments"
| "tokenMask T_token = None"
| "tokenMask T_eof = None"

fun inCategory :: "32 word \<Rightarrow> Emitted \<Rightarrow> bool" where
  "inCategory c (Emit t txt sp ep) = (tokenMask t = Some c)"
| "inCategory c (Thrown e) = False"

lemma mask_values:
  "scanWhitespace = 0x80000000" "scanIdents = 0x40000000" "scanInts = 0x10000000"
  "scanFloats = 0x8000000" "scanStrings = 0x4000000" "scanComments = 0x2000000"
  by (simp_all add: scanWhitespace_def scanIdents_def scanInts_def scanFloats_def
      scanStrings_def scanComments_def shl1_def)

lemma and_not_disjoint: "(c :: 32 word) AND g = 0 \<Longrightarrow> (x AND NOT c) AND g = x AND g"
  by (auto simp: bit_eq_iff bit_and_iff bit_not_iff)

lemma or_disjoint: "(c :: 32 word) AND g = 0 \<Longrightarrow> (x OR c) AND g = x AND g"
  by (auto simp: bit_eq_iff bit_and_iff bit_or_iff)

lemma attempt_Gated_kind:
  assumes "attempt cfg s = Gated g sk (t, se)"
  shows "(g = scanWhitespace \<and> t = T_whitespace \<and> sk = se) \<or>
         (g = scanIdents \<and> (t = T_identifier \<or> t = T_keyword) \<and> sk = se) \<or>
         (g = scanStrings \<and> t = T_string \<and> sk = se) \<or>
         (g = scanInts OR scanFloats \<and> (t = T_token \<or> t = T_int \<or> t = T_float)) \<or>
         (g = scanComments \<and> t = T_comment \<and> sk = se)"
proof -
  obtain ch0 s1 where n: "next cfg s = (ch0, s1)" by (cases "next cfg s")
  obtain pk s2 where p: "peek cfg s1 = (pk, s2)" by (cases "peek cfg s1")
  from assms n p obtain ch where ch: "ch0 = Some ch"
    by (cases ch0) (auto simp: attempt_def Let_def)
  define s3 where "s3 = s2\<lparr>startPos := (line s2, column s2)\<rparr>"
  define first where "first = s3\<lparr>contents := [ch]\<rparr>"
  note a = attempt_first [OF n [unfolded ch] p s3_def first_def]
  from assms [unfolded a] scanNumber_token [of cfg ch s3] show ?thesis
    by (auto simp: returnToken_def split: if_splits prod.splits option.splits)
qed

text \<open>The stream, by the outcome of the first pass.\<close>

lemma tokens_Done_Inl:
  "attempt cfg s = Done (Inl e, s') \<Longrightarrow> tokens cfg s = [Thrown e]"
  by (subst tokens.simps) (simp add: scan_attempt resolve_def)

lemma tokens_Done_eof:
  "attempt cfg s = Done (Inr T_eof, s') \<Longrightarrow>
   tokens cfg s = [Emit T_eof (contents s') (startPos s') (endPos s')]"
  by (subst tokens.simps) (simp add: scan_attempt resolve_def)

lemma tokens_Done_token:
  "attempt cfg s = Done (Inr t, s') \<Longrightarrow> t \<noteq> T_eof \<Longrightarrow>
   tokens cfg s = Emit t (contents s') (startPos s') (endPos s') # tokens cfg s'"
  by (subst tokens.simps) (simp add: scan_attempt resolve_def)

lemma tokens_skip:
  "attempt cfg s = Gated g sk r \<Longrightarrow> mode cfg AND g = 0 \<Longrightarrow> tokens cfg s = tokens cfg sk"
  by (subst tokens.simps, subst (2) tokens.simps)
     (simp add: scan_attempt resolve_def split: prod.splits)

lemma tokens_emit:
  assumes "attempt cfg s = Gated g sk (t, se)" "mode cfg AND g \<noteq> 0"
  shows "tokens cfg s =
     Emit t (contents se) (startPos se) (endPos se) # tokens cfg (se\<lparr>currentToken := Some t\<rparr>)"
  using assms attempt_Gated_emit(4) [OF assms(1)]
  by (subst tokens.simps) (simp add: scan_attempt resolve_def returnToken_def endPos_def)

text \<open>Two masks that differ in the bit \<open>c\<close> of whitespace, identifiers, strings or
  comments only: the stream of the one without \<open>c\<close> is the stream of the one with \<open>c\<close>,
  less the tokens of that category.\<close>

lemma stream_filter:
  assumes c: "c \<in> {scanWhitespace, scanIdents, scanStrings, scanComments}"
    and off: "mD AND c = 0" and on: "mE AND c \<noteq> 0"
    and same: "\<forall>g \<in> {scanWhitespace, scanIdents, scanStrings, scanInts OR scanFloats,
                      scanComments} - {c}. (mD AND g = 0) = (mE AND g = 0)"
    and fl: "(mD AND scanFloats = 0) = (mE AND scanFloats = 0)"
  shows "tokens (cfg\<lparr>mode := mD\<rparr>) (s\<lparr>currentToken := x\<rparr>) =
         filter (\<lambda>e. \<not> inCategory c e) (tokens (cfg\<lparr>mode := mE\<rparr>) s)"
proof (induction "length (remaining cfg s)" arbitrary: s x rule: less_induct)
  case less
  let ?E = "cfg\<lparr>mode := mE\<rparr>" and ?D = "cfg\<lparr>mode := mD\<rparr>"
  let ?keep = "\<lambda>e. \<not> inCategory c e"
  have D: "?D = ?E\<lparr>mode := mD\<rparr>" by simp
  have "(mD AND scanFloats = 0) = (mode ?E AND scanFloats = 0)" using fl by simp
  from attempt_frame [OF this, where s = s and x = x]
  have fr: "attempt ?D (s\<lparr>currentToken := x\<rparr>) = reframe x (attempt ?E s)"
    by (simp only: D [symmetric])
  have nc: "scanInts \<noteq> c" "scanFloats \<noteq> c" "scanInts OR scanFloats \<noteq> c"
    using c by (auto simp: mask_values)
  show ?case
  proof (cases "attempt ?E s")
    case (Done r)
    obtain res s' where r: "r = (res, s')" by (cases r)
    show ?thesis
    proof (cases res)
      case (Inl e)
      with Done r fr show ?thesis
        by (simp add: tokens_Done_Inl [of ?E s e s']
            tokens_Done_Inl [of ?D "s\<lparr>currentToken := x\<rparr>" e "s'\<lparr>currentToken := x\<rparr>"])
    next
      case (Inr t)
      with Done r fr have aE: "attempt ?E s = Done (Inr t, s')"
        and aD: "attempt ?D (s\<lparr>currentToken := x\<rparr>) = Done (Inr t, s')" by simp_all
      show ?thesis
      proof (cases "t = T_eof")
        case True
        with aE aD show ?thesis
          by (simp add: tokens_Done_eof [of ?E s s'] tokens_Done_eof [of ?D _ s'])
      next
        case False
        from attempt_token [OF aE False] have t: "t = T_token"
          and "length (remaining cfg s') < length (remaining cfg s)"
          by (auto simp: starts_def)
        from less.hyps [of s' "currentToken s'", OF this(2)]
        have "tokens ?D s' = filter ?keep (tokens ?E s')" by simp
        with t show ?thesis
          by (simp add: tokens_Done_token [OF aE False] tokens_Done_token [OF aD False])
      qed
    qed
  next
    case (Gated g sk r)
    obtain t se where r: "r = (t, se)" by (cases r)
    note aE = Gated [unfolded r]
    from fr aE have aD: "attempt ?D (s\<lparr>currentToken := x\<rparr>) =
        Gated g (sk\<lparr>currentToken := x\<rparr>) (t, se\<lparr>currentToken := x\<rparr>)" by simp
    note kind = attempt_Gated_kind [OF aE]
    from attempt_Gated_skip [OF aE] have lsk: "length (remaining cfg sk) < length (remaining cfg s)"
      by auto
    from attempt_Gated_emit(1,2) [OF aE]
    have "remaining cfg s = contents se @ remaining cfg se" "contents se \<noteq> []"
      by simp_all
    then have "length (remaining cfg se) < length (remaining cfg s)" by simp
    then have lse: "\<And>y. length (remaining cfg (se\<lparr>currentToken := y\<rparr>)) < length (remaining cfg s)"
      by simp
    show ?thesis
    proof (cases "g = c")
      case True
      with kind nc have se: "sk = se" and cat: "tokenMask t = Some c" by auto
      from True on have "mode ?E AND g \<noteq> 0" by simp
      from tokens_emit [OF aE this] cat
      have "filter ?keep (tokens ?E s) = filter ?keep (tokens ?E (se\<lparr>currentToken := Some t\<rparr>))"
        by simp
      also from less.hyps [of "se\<lparr>currentToken := Some t\<rparr>" x, OF lse]
      have "\<dots> = tokens ?D (se\<lparr>currentToken := x\<rparr>)" by simp
      also from True off have "mode ?D AND g = 0" by simp
      from tokens_skip [OF aD this] se
      have "tokens ?D (se\<lparr>currentToken := x\<rparr>) = tokens ?D (s\<lparr>currentToken := x\<rparr>)" by simp
      finally show ?thesis by simp
    next
      case False
      with attempt_Gated_mask [OF Gated] same
      have ag: "(mD AND g = 0) = (mE AND g = 0)" by blast
      from False kind c have cat: "tokenMask t \<noteq> Some c"
        by (auto simp: mask_values)
      show ?thesis
      proof (cases "mE AND g = 0")
        case True
        then have "mode ?E AND g = 0" "mode ?D AND g = 0" using ag by simp_all
        from tokens_skip [OF aE this(1)] tokens_skip [OF aD this(2)] less.hyps [of sk x, OF lsk]
        show ?thesis by simp
      next
        case nz: False
        then have "mode ?E AND g \<noteq> 0" "mode ?D AND g \<noteq> 0" using ag by simp_all
        from tokens_emit [OF aE this(1)] tokens_emit [OF aD this(2)] cat
          less.hyps [of "se\<lparr>currentToken := Some t\<rparr>" "Some t", OF lse]
        show ?thesis by (simp add: endPos_def)
      qed
    qed
  qed
qed

text \<open>C3, as the code has it. For whitespace, identifiers, strings and comments: the
  token stream produced with the category's bit cleared in the mask is the stream
  produced with the bit set, less the tokens of that category; every other token comes
  with the same category, contents, start and end position, and an error is thrown at
  the same place. (Ints and floats share one mask test, so the statement does not
  extend to them.)\<close>

theorem disabling_a_category:
  assumes "c \<in> {scanWhitespace, scanIdents, scanStrings, scanComments}"
  shows "tokens (cfg\<lparr>mode := mode cfg AND NOT c\<rparr>) s =
         filter (\<lambda>e. \<not> inCategory c e) (tokens (cfg\<lparr>mode := mode cfg OR c\<rparr>) s)"
proof -
  let ?mD = "mode cfg AND NOT c" and ?mE = "mode cfg OR c"
  from assms have c0: "c \<noteq> 0" by (auto simp: mask_values)
  have off: "?mD AND c = 0" by (auto simp: bit_eq_iff bit_and_iff bit_not_iff)
  have "?mE AND c = c" by (auto simp: bit_eq_iff bit_and_iff bit_or_iff)
  with c0 have on: "?mE AND c \<noteq> 0" by simp
  have dis: "\<forall>g \<in> {scanWhitespace, scanIdents, scanStrings, scanInts OR scanFloats,
                      scanComments} - {c}. c AND g = 0"
    using assms by (auto simp: mask_values)
  have same: "\<forall>g \<in> {scanWhitespace, scanIdents, scanStrings, scanInts OR scanFloats,
                      scanComments} - {c}. (?mD AND g = 0) = (?mE AND g = 0)"
  proof
    fix g
    assume "g \<in> {scanWhitespace, scanIdents, scanStrings, scanInts OR scanFloats,
                      scanComments} - {c}"
    with dis have "c AND g = 0" by blast
    then show "(?mD AND g = 0) = (?mE AND g = 0)"
      by (simp add: and_not_disjoint or_disjoint)
  qed
  have "c AND scanFloats = 0" using assms by (auto simp: mask_values)
  then have fl: "(?mD AND scanFloats = 0) = (?mE AND scanFloats = 0)"
    by (simp add: and_not_disjoint or_disjoint)
  from stream_filter [OF assms off on same fl, where cfg = cfg and s = s and x = "currentToken s"]
  show ?thesis by simp
qed

theorem disabling_a_category_witness:
  "tokens ((newConfig noInit)\<lparr>mode := mode (newConfig noInit) AND NOT scanWhitespace\<rparr>)
     (newScanner (StringReader (js ''a b''))) =
   [Emit T_identifier (js ''a'') (1, 1) (1, 1), Emit T_identifier (js ''b'') (1, 3) (1, 3),
    Emit T_eof [] (1, 3) (1, 3)]"
proof -
  have c: "scanWhitespace \<in> {scanWhitespace, scanIdents, scanStrings, scanComments}" by simp
  have e: "tokens ((newConfig noInit)\<lparr>mode := mode (newConfig noInit) OR scanWhitespace\<rparr>)
     (newScanner (StringReader (js ''a b''))) =
     [Emit T_identifier (js ''a'') (1, 1) (1, 1), Emit T_whitespace (js '' '') (1, 2) (1, 2),
      Emit T_identifier (js ''b'') (1, 3) (1, 3), Emit T_eof [] (1, 3) (1, 3)]"
    by code_simp
  have m: "scanIdents \<noteq> scanWhitespace" by (simp add: mask_values)
  from disabling_a_category [OF c, where cfg = "newConfig noInit" and s = "newScanner (StringReader (js ''a b''))"] e m
  show ?thesis by simp
qed

text \<open>C3 as the spec states it fails for ints: with floats enabled, clearing the ints
  bit removes nothing, and the int token \<open>1\<close> is still emitted.\<close>

theorem disabling_ints_counterexample:
  "tokens ((newConfig noInit)\<lparr>mode := mode (newConfig noInit) AND NOT scanInts\<rparr>)
     (newScanner (StringReader (js ''1''))) \<noteq>
   filter (\<lambda>e. \<not> inCategory scanInts e)
     (tokens ((newConfig noInit)\<lparr>mode := mode (newConfig noInit) OR scanInts\<rparr>)
        (newScanner (StringReader (js ''1''))))"
  by code_simp

section \<open>Unterminated literals and comments\<close>

text \<open>C5 at three inputs, all categories enabled. A string and a block comment that the
  source ends before they are closed throw their errors. But \<open>/*/\<close> is returned as a
  complete comment: the search for the closing \<open>*/\<close> starts at the \<open>*\<close> of the opening
  \<open>/*\<close>, so that one \<open>*\<close> opens and closes the comment, and no error is thrown for a
  block comment that has no closing marker after its opening one.\<close>

theorem block_comment_closed_by_its_opener:
  "fst (scan (newConfig (noInit\<lparr>init_mode := Some (maskNumber allTokens)\<rparr>))
          (newScanner (StringReader (js ''/*/'')))) = Inr T_comment \<and>
   contents (snd (scan (newConfig (noInit\<lparr>init_mode := Some (maskNumber allTokens)\<rparr>))
                    (newScanner (StringReader (js ''/*/''))))) = js ''/*/'' \<and>
   remaining (newConfig (noInit\<lparr>init_mode := Some (maskNumber allTokens)\<rparr>))
     (snd (scan (newConfig (noInit\<lparr>init_mode := Some (maskNumber allTokens)\<rparr>))
             (newScanner (StringReader (js ''/*/''))))) = [] \<and>
   fst (scan (newConfig (noInit\<lparr>init_mode := Some (maskNumber allTokens)\<rparr>))
          (newScanner (StringReader (js ''/* never closed''))))
     = Inl CommentNotTerminated \<and>
   fst (scan (newConfig (noInit\<lparr>init_mode := Some (maskNumber allTokens)\<rparr>))
          (newScanner (StringReader (cu CHR 0x27 # js ''never closed''))))
     = Inl LiteralNotTerminated"
  by code_simp

end
